theory Spec2Isabelle
  imports Main
begin

section \<open>Strings\<close>

text \<open>
  JavaScript strings are modelled as \<^typ>\<open>string\<close>: one \<^typ>\<open>char\<close> per UTF-16 code unit,
  for the code units \<open>U+0000\<close> to \<open>U+00FF\<close>. On these \<open>toLowerCase\<close> maps \<open>A\<close>..\<open>Z\<close> to
  \<open>a\<close>..\<open>z\<close> and the capital letters \<open>U+00C0\<close>..\<open>U+00DE\<close> (all but the multiplication sign
  \<open>U+00D7\<close>) to \<open>U+00E0\<close>..\<open>U+00FE\<close>, and \<open>trim\<close> removes tab, line feed, vertical tab, form
  feed, carriage return, space and no-break space (\<open>U+00A0\<close>) at both ends. Strings with
  a code unit above \<open>U+00FF\<close> are outside the model. The one built-in whose failure on such
  a string the agents depend on, \<open>encodeURIComponent\<close> (it throws on a lone surrogate), is
  a parameter of the model.
\<close>

definition lower_char :: "char \<Rightarrow> char" where
  "lower_char c =
     (let n = (of_char c :: nat) in
      if (65 \<le> n \<and> n \<le> 90) \<or> (192 \<le> n \<and> n \<le> 222 \<and> n \<noteq> 215) then char_of (n + 32) else c)"

definition toLowerCase :: "string \<Rightarrow> string" where
  "toLowerCase s = map lower_char s"

definition is_space :: "char \<Rightarrow> bool" where
  "is_space c = (c = CHR 0x09 \<or> c = CHR 0x0A \<or> c = CHR 0x0B \<or> c = CHR 0x0C \<or> c = CHR 0x0D
     \<or> c = CHR '' '' \<or> c = CHR 0xA0)"

definition trim :: "string \<Rightarrow> string" where
  "trim s = rev (dropWhile is_space (rev (dropWhile is_space s)))"

definition startsWith :: "string \<Rightarrow> string \<Rightarrow> bool" where
  "startsWith s p = (take (length p) s = p)"

definition endsWith :: "string \<Rightarrow> string \<Rightarrow> bool" where
  "endsWith s p = (length p \<le> length s \<and> drop (length s - length p) s = p)"

text \<open>\<open>s.includes(sub)\<close>: \<open>sub\<close> occurs somewhere in \<open>s\<close>.\<close>

fun js_includes :: "string \<Rightarrow> string \<Rightarrow> bool" where
  "js_includes [] sub = (sub = [])"
| "js_includes (c # cs) sub = (startsWith (c # cs) sub \<or> js_includes cs sub)"

text \<open>\<open>s.replace(/p$/, '')\<close> for a literal \<open>p\<close>: without the \<open>m\<close> flag \<open>$\<close> is the end of the
  string, so the replacement removes \<open>p\<close> when the string ends with it.\<close>

definition remove_at_end :: "string \<Rightarrow> string \<Rightarrow> string" where
  "remove_at_end p s = (if endsWith s p then take (length s - length p) s else s)"

section \<open>URL normalization and title cleaning\<close>

text \<open>
  \<^verbatim>\<open>url.replace(/^(https?:\/\/)?(www\.)?/, '').replace(/\/$/, '').toLowerCase()\<close>

  Both groups of the first pattern are optional and greedy, and the pattern matches at
  the start of every string: a leading \<open>http://\<close> or \<open>https://\<close> is removed when it is
  there, then a leading \<open>www.\<close> when it is there. The pattern has no \<open>i\<close> flag, so both
  are compared case-sensitively; the lower-casing comes last. The argument is a string,
  so the \<open>catch\<close> branch of the source is not reached.
\<close>

definition strip_scheme :: "string \<Rightarrow> string" where
  "strip_scheme s =
     (if startsWith s ''https://'' then drop 8 s
      else if startsWith s ''http://'' then drop 7 s
      else s)"

definition strip_www :: "string \<Rightarrow> string" where
  "strip_www s = (if startsWith s ''www.'' then drop 4 s else s)"

definition normalizeUrl :: "string \<Rightarrow> string" where
  "normalizeUrl url = toLowerCase (remove_at_end ''/'' (strip_www (strip_scheme url)))"

text \<open>The rule as the specification words it: lower-case first, then strip a leading
  scheme, a leading \<open>www.\<close> and one trailing slash.\<close>

definition normalizeUrl_spec :: "string \<Rightarrow> string" where
  "normalizeUrl_spec url = remove_at_end ''/'' (strip_www (strip_scheme (toLowerCase url)))"

text \<open>The two synthesized titles of \<open>cleanTitle\<close>.\<close>

definition synthesized :: "bool \<Rightarrow> string \<Rightarrow> string" where
  "synthesized isVideo topicTitle =
     (if isVideo then topicTitle @ '' (Video)'' else topicTitle @ '' Guide'')"

text \<open>The ending of a synthesized title, after the space.\<close>

definition ending :: "bool \<Rightarrow> string" where
  "ending b = (if b then ''(Video)'' else ''Guide'')"

definition remove_suffixes :: "string \<Rightarrow> string" where
  "remove_suffixes s =
     remove_at_end '' - Wikipedia'' (remove_at_end '' - GeeksforGeeks''
       (remove_at_end '' | Coursera'' (remove_at_end '' - YouTube'' s)))"

definition generic :: "string \<Rightarrow> bool" where
  "generic lower = (lower = ''youtube'' \<or> lower = ''youtube.com'' \<or> startsWith lower ''http''
     \<or> lower = ''video'' \<or> lower = ''article'' \<or> lower = ''home'' \<or> lower = ''index'')"

text \<open>\<open>cleanTitle(title, uri, topicTitle)\<close>; \<open>title\<close> is \<open>string | undefined\<close>, so
  \<open>!title\<close> holds for \<open>undefined\<close> and for the empty string.\<close>

definition cleanTitle :: "string option \<Rightarrow> string \<Rightarrow> string \<Rightarrow> string" where
  "cleanTitle title uri topicTitle =
     (let cleanUri = normalizeUrl uri in
      case title of
        None \<Rightarrow>
          synthesized (js_includes cleanUri ''youtube'' \<or> js_includes cleanUri ''youtu.be''
            \<or> js_includes cleanUri ''vimeo'') topicTitle
      | Some t \<Rightarrow>
          if t = [] \<or> trim t = [] then
            synthesized (js_includes cleanUri ''youtube'' \<or> js_includes cleanUri ''youtu.be''
              \<or> js_includes cleanUri ''vimeo'') topicTitle
          else
            (let clean = remove_suffixes (trim t); lower = toLowerCase clean in
             if generic lower then
               synthesized (js_includes cleanUri ''youtube'' \<or> js_includes cleanUri ''youtu.be'')
                 topicTitle
             else clean))"

text \<open>A title that \<open>cleanTitle\<close> has nothing left to do on.\<close>

definition already_clean :: "string \<Rightarrow> bool" where
  "already_clean c = (c \<noteq> [] \<and> trim c = c \<and> remove_suffixes c = c \<and> \<not> generic (toLowerCase c))"

text \<open>The two \<open>isVideo\<close> flags of \<open>cleanTitle\<close>: the one of the branch for a missing or
  blank title, and the one of the branch for a generic title.\<close>

definition isVideo_blank :: "string \<Rightarrow> bool" where
  "isVideo_blank uri =
     (js_includes (normalizeUrl uri) ''youtube'' \<or> js_includes (normalizeUrl uri) ''youtu.be''
      \<or> js_includes (normalizeUrl uri) ''vimeo'')"

definition isVideo_generic :: "string \<Rightarrow> bool" where
  "isVideo_generic uri =
     (js_includes (normalizeUrl uri) ''youtube'' \<or> js_includes (normalizeUrl uri) ''youtu.be'')"

text \<open>The inputs on which a second pass of \<open>cleanTitle\<close> changes nothing.

  When the first pass synthesizes a title from the topic title (the title is missing,
  blank or generic), the second pass sees the topic title followed by \<open>Guide\<close> or
  \<open>(Video)\<close>. If the topic title begins, after its leading white space, with \<open>http\<close> in
  any letter case, the second pass finds that title generic and synthesizes again, with
  the flag of the generic branch; otherwise it returns the title trimmed, which is the
  title itself when the topic title is not empty and has no leading white space.

  When the first pass returns the cleaned title, the second pass returns it again when
  it has no white space and no further suffix left at its end.\<close>

definition http_topic :: "string \<Rightarrow> bool" where
  "http_topic topicTitle = startsWith (toLowerCase (dropWhile is_space topicTitle)) ''http''"

definition plain_topic :: "string \<Rightarrow> bool" where
  "plain_topic topicTitle = (topicTitle \<noteq> [] \<and> \<not> is_space (hd topicTitle))"

definition settled :: "string \<Rightarrow> bool" where
  "settled c = (trim c = c \<and> remove_suffixes c = c)"

definition stable_blank :: "string \<Rightarrow> string \<Rightarrow> bool" where
  "stable_blank uri topicTitle =
     (if http_topic topicTitle then isVideo_blank uri = isVideo_generic uri else plain_topic topicTitle)"

definition stable :: "string option \<Rightarrow> string \<Rightarrow> string \<Rightarrow> bool" where
  "stable title uri topicTitle =
     (case title of
        None \<Rightarrow> stable_blank uri topicTitle
      | Some t \<Rightarrow>
          if t = [] \<or> trim t = [] then stable_blank uri topicTitle
          else if generic (toLowerCase (remove_suffixes (trim t)))
            then http_topic topicTitle \<or> plain_topic topicTitle
            else settled (remove_suffixes (trim t)))"
text \<open>Numbers in template strings: \<open>`${n}`\<close> for a non-negative integer.\<close>

definition digit_char :: "nat \<Rightarrow> char" where
  "digit_char d = char_of (48 + d)"

function show_nat :: "nat \<Rightarrow> string" where
  "show_nat n = (if n < 10 then [digit_char n] else show_nat (n div 10) @ [digit_char (n mod 10)])"
  by pat_completeness auto
termination
  by (relation "measure id") auto

declare show_nat.simps [simp del]

section \<open>JSON values and thrown errors\<close>

text \<open>
  What \<open>JSON.parse\<close> returns. The only question the code asks of a number is whether it
  is zero or below 100, so numbers are integers here. \<open>JSON.parse\<close> keeps the last of
  two equal keys, so the keys of a parsed object are distinct, and a member is looked up
  with \<^const>\<open>map_of\<close>.
\<close>

datatype json = JNull | JBool bool | JNum int | JStr string | JArr "json list"
  | JObj "(string \<times> json) list"

fun truthy :: "json \<Rightarrow> bool" where
  "truthy JNull = False"
| "truthy (JBool b) = b"
| "truthy (JNum n) = (n \<noteq> 0)"
| "truthy (JStr s) = (s \<noteq> [])"
| "truthy (JArr xs) = True"
| "truthy (JObj kvs) = True"

text \<open>\<open>item.key\<close> on a value that is not \<open>null\<close>: the member of an object, \<open>undefined\<close>
  (\<^const>\<open>None\<close>) otherwise. The keys read by the code (\<open>uri\<close>, \<open>description\<close>, \<open>title\<close>,
  \<open>modules\<close>, \<open>topics\<close>) are not properties of strings, numbers, booleans or arrays.\<close>

fun member :: "json \<Rightarrow> string \<Rightarrow> json option" where
  "member (JObj kvs) k = map_of kvs k"
| "member v k = None"

text \<open>
  A thrown value, as \<open>retryWithBackoff\<close> inspects it: \<open>error?.status\<close>, \<open>error?.code\<close> and
  \<open>error?.message\<close>, each absent (\<^const>\<open>None\<close>) or present; \<open>message\<close> is a string when
  present, as on every \<open>Error\<close> object.
\<close>

datatype js_error = Thrown (err_status: "json option") (err_code: "json option")
  (err_message: "string option")

definition TypeError :: "string \<Rightarrow> js_error" where
  "TypeError msg = Thrown None None (Some msg)"

definition SyntaxError :: "string \<Rightarrow> js_error" where
  "SyntaxError msg = Thrown None None (Some msg)"

definition Error :: "string \<Rightarrow> js_error" where
  "Error msg = Thrown None None (Some msg)"

definition URIError :: "string \<Rightarrow> js_error" where
  "URIError msg = Thrown None None (Some msg)"

section \<open>Retry with backoff\<close>

text \<open>
  \<^verbatim>\<open>error?.status === 429 || error?.code === 429 || error?.message?.includes('429')
  || error?.status === 'RESOURCE_EXHAUSTED'\<close>
\<close>

definition rate_limited :: "js_error \<Rightarrow> bool" where
  "rate_limited error =
     (err_status error = Some (JNum 429) \<or> err_code error = Some (JNum 429)
      \<or> (case err_message error of None \<Rightarrow> False | Some m \<Rightarrow> js_includes m ''429'')
      \<or> err_status error = Some (JStr ''RESOURCE_EXHAUSTED''))"

text \<open>
  The operation \<open>fn\<close> is a call to a remote service: each call reads and changes a state
  \<open>'s\<close> (the service, the clock) and either throws or returns. \<open>retryWithBackoff\<close>
  returns the outcome, the delays it waited (the arguments of \<open>setTimeout\<close>, in order)
  and the state after its last call of \<open>fn\<close>.
\<close>

type_synonym ('s, 'a) operation = "'s \<Rightarrow> (js_error + 'a) \<times> 's"

function retryWithBackoff ::
  "('s, 'a) operation \<Rightarrow> int \<Rightarrow> int \<Rightarrow> 's \<Rightarrow> (js_error + 'a) \<times> int list \<times> 's" where
  "retryWithBackoff fn retries delay s =
     (case fn s of
        (Inr v, s') \<Rightarrow> (Inr v, [], s')
      | (Inl error, s') \<Rightarrow>
          if retries > 0 \<and> rate_limited error then
            (case retryWithBackoff fn (retries - 1) (delay * 2) s' of
               (r, waits, s'') \<Rightarrow> (r, delay # waits, s''))
          else (Inl error, [], s'))"
  by pat_completeness auto
termination
  by (relation "measure (\<lambda>(fn, retries, delay, s). nat retries)") auto

declare retryWithBackoff.simps [simp del]

text \<open>The defaults \<open>retries = 3, delay = 2000\<close>.\<close>

definition retryWithBackoff_default ::
  "('s, 'a) operation \<Rightarrow> 's \<Rightarrow> (js_error + 'a) \<times> int list \<times> 's" where
  "retryWithBackoff_default fn s = retryWithBackoff fn 3 2000 s"

text \<open>A sample operation for evaluation: the state counts the calls; the first \<open>k\<close>
  calls throw \<open>e\<close>, later calls return \<open>v\<close>.\<close>

definition fails_first :: "nat \<Rightarrow> js_error \<Rightarrow> 'a \<Rightarrow> (nat, 'a) operation" where
  "fails_first k e v n = (if n < k then Inl e else Inr v, Suc n)"

section \<open>YouTube thumbnails\<close>

text \<open>
  \<^verbatim>\<open>/^.*(youtu.be\/|v\/|u\/\w\/|embed\/|watch\?v=|&v=|shorts\/)([^#&?]*).*/\<close>

  The pattern is anchored at the start of the string and has no flags. The leading
  \<open>.*\<close> is greedy and what follows the first group always matches, so the first group
  matches at the rightmost position where one of its alternatives matches and up to which
  \<open>.\<close> matches every character (\<open>.\<close> does not match a line terminator; the dot of
  \<open>youtu.be\<close> is such a dot as well). The alternatives begin with different
  characters, so at most one matches at a position. The second group is the longest run
  of characters other than \<open>#\<close>, \<open>&\<close> and \<open>?\<close> after the first group.
\<close>

definition word_char :: "char \<Rightarrow> bool" where
  "word_char c = (let n = (of_char c :: nat) in
     (48 \<le> n \<and> n \<le> 57) \<or> (65 \<le> n \<and> n \<le> 90) \<or> (97 \<le> n \<and> n \<le> 122) \<or> n = 95)"

definition line_terminator :: "char \<Rightarrow> bool" where
  "line_terminator c = (c = CHR 0x0A \<or> c = CHR 0x0D)"

text \<open>The length of the alternative of the first group that matches at the start of
  \<open>s\<close>, if one does.\<close>

definition marker_length :: "string \<Rightarrow> nat option" where
  "marker_length s =
     (if startsWith s ''youtu'' \<and> 9 \<le> length s \<and> \<not> line_terminator (s ! 5)
         \<and> take 3 (drop 6 s) = ''be/'' then Some 9
      else if startsWith s ''v/'' then Some 2
      else if startsWith s ''u/'' \<and> 4 \<le> length s \<and> word_char (s ! 2) \<and> s ! 3 = CHR ''/''
        then Some 4
      else if startsWith s ''embed/'' then Some 6
      else if startsWith s ''watch?v='' then Some 8
      else if startsWith s ''&v='' then Some 3
      else if startsWith s ''shorts/'' then Some 7
      else None)"

text \<open>What follows the first group in the match, if the pattern matches.\<close>

fun after_marker :: "string \<Rightarrow> string option" where
  "after_marker [] = None"
| "after_marker (c # cs) =
     (case (if line_terminator c then None else after_marker cs) of
        Some rest \<Rightarrow> Some rest
      | None \<Rightarrow>
          (case marker_length (c # cs) of
             Some n \<Rightarrow> Some (drop n (c # cs))
           | None \<Rightarrow> None))"

definition id_char :: "char \<Rightarrow> bool" where
  "id_char c = (c \<noteq> CHR ''#'' \<and> c \<noteq> CHR ''&'' \<and> c \<noteq> CHR ''?'')"

text \<open>\<open>url.match(regExp)\<close>, as the second group \<open>match[2]\<close> of the match, if there is one.\<close>

definition match2 :: "string \<Rightarrow> string option" where
  "match2 url = map_option (takeWhile id_char) (after_marker url)"

text \<open>An alternative of the first group matches at position \<open>i\<close> of \<open>u\<close>, and no line
  terminator stands before it.\<close>

definition marker_at :: "string \<Rightarrow> nat \<Rightarrow> bool" where
  "marker_at u i = (i < length u \<and> marker_length (drop i u) \<noteq> None
     \<and> list_all (\<lambda>c. \<not> line_terminator c) (take i u))"

definition getYouTubeVideoId :: "string \<Rightarrow> string option" where
  "getYouTubeVideoId url =
     (if url = [] then None
      else case match2 url of
        None \<Rightarrow> None
      | Some m \<Rightarrow> if length m = 11 then Some m else None)"

definition getYouTubeThumbnail :: "string \<Rightarrow> string option" where
  "getYouTubeThumbnail url =
     (case getYouTubeVideoId url of
        Some id' \<Rightarrow> if id' = [] then None
                    else Some (''https://img.youtube.com/vi/'' @ id' @ ''/hqdefault.jpg'')
      | None \<Rightarrow> None)"

section \<open>The Curator Agent\<close>

text \<open>\<open>s.replace(p, r)\<close> for a string pattern: the first occurrence of \<open>p\<close> is replaced.\<close>

fun replace_first :: "string \<Rightarrow> string \<Rightarrow> string \<Rightarrow> string" where
  "replace_first p r [] = (if p = [] then r else [])"
| "replace_first p r (c # cs) =
     (if startsWith (c # cs) p then r @ drop (length p) (c # cs)
      else c # replace_first p r cs)"

text \<open>\<open>text.replace(/```json|```/g, '')\<close>: every fence is removed, scanning from the
  left; at a position the longer alternative is tried first.\<close>

definition fence :: string where
  "fence = [CHR 0x60, CHR 0x60, CHR 0x60]"

function remove_fences :: "string \<Rightarrow> string" where
  "remove_fences [] = []"
| "remove_fences (c # cs) =
     (if startsWith (c # cs) (fence @ ''json'') then remove_fences (drop 6 cs)
      else if startsWith (c # cs) fence then remove_fences (drop 2 cs)
      else c # remove_fences cs)"
  by pat_completeness auto
termination
  by (relation "measure length") auto

text \<open>The response of the generation call, as far as the agents read it.\<close>

record grounding_web =
  uri :: "string option"
  title :: "string option"

record grounding_chunk =
  web :: "grounding_web option"

record grounding_metadata =
  groundingChunks :: "grounding_chunk list option"

record candidate =
  groundingMetadata :: "grounding_metadata option"

record response =
  candidates :: "candidate list option"
  text' :: "string option"

text \<open>\<open>types.ts\<close>. The enrichment step stores whatever truthy JSON value the model gave
  as \<open>description\<close>, so that field holds a JSON value.\<close>

record resource_link =
  title :: string
  uri :: string
  source :: "string option"
  thumbnail :: "string option"
  description :: "json option"

record curated_content =
  summary :: string
  resources :: "resource_link list"

text \<open>
  Built-ins of the JavaScript host that the agents call: \<open>new URL(uri).hostname\<close>
  (\<^const>\<open>None\<close> when the constructor throws), \<open>JSON.parse\<close> (\<^const>\<open>None\<close> when it throws),
  the comparison \<open>v < n\<close> of a JSON value with a number, and \<open>encodeURIComponent\<close>
  (\<^const>\<open>None\<close> when it throws \<open>URIError\<close>, as it does on a string with a lone surrogate).
  They are parameters of the model.
\<close>

record host =
  URL_hostname :: "string \<Rightarrow> string option"
  JSON_parse :: "string \<Rightarrow> json option"
  less_than :: "json \<Rightarrow> int \<Rightarrow> bool"
  encodeURIComponent :: "string \<Rightarrow> string option"

text \<open>\<open>candidates?.[0]?.groundingMetadata?.groundingChunks || []\<close>\<close>

definition grounding_chunks_of :: "response \<Rightarrow> grounding_chunk list" where
  "grounding_chunks_of r =
     (case candidates r of
        None \<Rightarrow> []
      | Some [] \<Rightarrow> []
      | Some (c # _) \<Rightarrow>
          (case groundingMetadata c of
             None \<Rightarrow> []
           | Some m \<Rightarrow> (case groundingChunks m of None \<Rightarrow> [] | Some chunks \<Rightarrow> chunks)))"

text \<open>\<open>.filter(chunk => chunk.web?.uri && chunk.web?.title)\<close>: the chunks with a non-empty
  URI and a non-empty title, as pairs of the two.\<close>

definition cited :: "grounding_chunk \<Rightarrow> (string \<times> string) option" where
  "cited chunk =
     (case web chunk of
        None \<Rightarrow> None
      | Some w \<Rightarrow>
          (case (grounding_web.uri w, grounding_web.title w) of
             (Some u, Some t) \<Rightarrow> if u \<noteq> [] \<and> t \<noteq> [] then Some (u, t) else None
           | _ \<Rightarrow> None))"

definition citations :: "grounding_chunk list \<Rightarrow> (string \<times> string) list" where
  "citations chunks = List.map_filter cited chunks"

text \<open>The body of \<open>.map(chunk => ...)\<close>; \<open>new URL(uri)\<close> may throw.\<close>

definition to_resource :: "host \<Rightarrow> string \<Rightarrow> string \<times> string \<Rightarrow> js_error + resource_link" where
  "to_resource h topicTitle c =
     (case c of (u, rawTitle) \<Rightarrow>
        (case URL_hostname h u of
           None \<Rightarrow> Inl (TypeError ''Invalid URL'')
         | Some hostname \<Rightarrow>
             Inr \<lparr>title = cleanTitle (Some rawTitle) u topicTitle,
                  uri = u,
                  source = Some (replace_first ''www.'' [] hostname),
                  thumbnail = getYouTubeThumbnail u,
                  description = Some (JStr ''Recommended resource found via Google Search.'')\<rparr>))"

fun map_chunks :: "host \<Rightarrow> string \<Rightarrow> (string \<times> string) list \<Rightarrow> js_error + resource_link list" where
  "map_chunks h topicTitle [] = Inr []"
| "map_chunks h topicTitle (c # cs) =
     (case to_resource h topicTitle c of
        Inl e \<Rightarrow> Inl e
      | Inr r \<Rightarrow>
          (case map_chunks h topicTitle cs of
             Inl e \<Rightarrow> Inl e
           | Inr rs \<Rightarrow> Inr (r # rs)))"

text \<open>\<open>resources.find(r => normalizeUrl(r.uri) === key)\<close>, as the index of the resource
  found: the enrichment assigns to fields of that element of the array.\<close>

fun find_index :: "('a \<Rightarrow> bool) \<Rightarrow> 'a list \<Rightarrow> nat option" where
  "find_index P [] = None"
| "find_index P (x # xs) =
     (if P x then Some 0 else case find_index P xs of None \<Rightarrow> None | Some i \<Rightarrow> Some (Suc i))"

text \<open>
  \<open>if (item.title && item.title.length < 100) match.title = cleanTitle(item.title, ...)\<close>
  for a title that is present. A string shorter than 100 is cleaned and stored. An array
  shorter than 100, and an object whose \<open>length\<close> member compares below 100, reach
  \<open>cleanTitle\<close>, whose \<open>title.trim()\<close> throws on them. Numbers and booleans have no
  \<open>length\<close>. The result is the new title to store, if any, and whether an exception
  was thrown.
\<close>

fun retitle :: "host \<Rightarrow> string \<Rightarrow> string \<Rightarrow> json \<Rightarrow> string option \<times> bool" where
  "retitle h topicTitle u (JStr s) =
     (if s \<noteq> [] \<and> length s < 100 then (Some (cleanTitle (Some s) u topicTitle), False)
      else (None, False))"
| "retitle h topicTitle u (JArr xs) = (None, length xs < 100)"
| "retitle h topicTitle u (JObj kvs) =
     (case map_of kvs ''length'' of
        None \<Rightarrow> (None, False)
      | Some l \<Rightarrow> (None, less_than h l 100))"
| "retitle h topicTitle u v = (None, False)"

text \<open>
  The body of \<open>parsed.forEach(item => ...)\<close>: the resources after the item, and whether
  the item threw. Reading \<open>item.uri\<close> throws on \<open>null\<close>. A \<open>uri\<close> that is not a string is
  returned by \<open>normalizeUrl\<close> as it is (its \<open>catch\<close> branch) and is \<open>===\<close> to no string, so
  that nothing is found. The description is assigned before the title is looked at.
\<close>

definition enrich_item ::
  "host \<Rightarrow> string \<Rightarrow> json \<Rightarrow> resource_link list \<Rightarrow> resource_link list \<times> bool" where
  "enrich_item h topicTitle item rs =
     (if item = JNull then (rs, True)
      else case (member item ''uri'', member item ''description'') of
        (Some (JStr u), Some d) \<Rightarrow>
          if u \<noteq> [] \<and> truthy d then
            (case find_index (\<lambda>r. normalizeUrl (uri r) = normalizeUrl u) rs of
               None \<Rightarrow> (rs, False)
             | Some i \<Rightarrow>
                 (let rs1 = rs[i := (rs ! i)\<lparr>description := Some d\<rparr>] in
                  case member item ''title'' of
                    None \<Rightarrow> (rs1, False)
                  | Some t \<Rightarrow>
                      (case retitle h topicTitle u t of
                         (Some new_title, threw) \<Rightarrow> (rs1[i := (rs1 ! i)\<lparr>title := new_title\<rparr>], threw)
                       | (None, threw) \<Rightarrow> (rs1, threw))))
          else (rs, False)
      | _ \<Rightarrow> (rs, False))"

text \<open>\<open>forEach\<close> inside the inner \<open>try\<close>: the first item that throws ends the loop, and
  what earlier items (and that item, before it threw) assigned stays.\<close>

fun enrich_all :: "host \<Rightarrow> string \<Rightarrow> json list \<Rightarrow> resource_link list \<Rightarrow> resource_link list" where
  "enrich_all h topicTitle [] rs = rs"
| "enrich_all h topicTitle (item # items) rs =
     (case enrich_item h topicTitle item rs of
        (rs', True) \<Rightarrow> rs'
      | (rs', False) \<Rightarrow> enrich_all h topicTitle items rs')"

text \<open>Step 2 of the agent: the inner \<open>try\<close> with its empty \<open>catch\<close>.\<close>

definition enrich :: "host \<Rightarrow> string \<Rightarrow> string option \<Rightarrow> resource_link list \<Rightarrow> resource_link list" where
  "enrich h topicTitle txt rs =
     (case txt of
        None \<Rightarrow> rs
      | Some t \<Rightarrow>
          if t = [] then rs
          else (case JSON_parse h (trim (remove_fences t)) of
                  Some (JArr parsed) \<Rightarrow> enrich_all h topicTitle parsed rs
                | _ \<Rightarrow> rs))"

definition dquote :: string where
  "dquote = [CHR 0x22]"

text \<open>Step 3: the two search links pushed when no resource was found. Each query is
  encoded before its link is pushed, and \<open>encodeURIComponent\<close> may throw.\<close>

definition search_links :: "host \<Rightarrow> string \<Rightarrow> string \<Rightarrow> js_error + resource_link list" where
  "search_links h topicTitle context =
     (case encodeURIComponent h (topicTitle @ '' '' @ context @ '' tutorial'') of
        None \<Rightarrow> Inl (URIError ''URI malformed'')
      | Some q \<Rightarrow>
          (case encodeURIComponent h (topicTitle @ '' tutorial'') of
             None \<Rightarrow> Inl (URIError ''URI malformed'')
           | Some qYt \<Rightarrow>
               Inr [\<lparr>title = ''Search Google for '' @ dquote @ topicTitle @ dquote,
                     uri = ''https://www.google.com/search?q='' @ q,
                     source = Some ''google.com'',
                     thumbnail = None,
                     description =
                       Some (JStr ''No specific verified links found. Click to search manually.'')\<rparr>,
                    \<lparr>title = ''Search YouTube for '' @ dquote @ topicTitle @ dquote,
                     uri = ''https://www.youtube.com/results?search_query='' @ qYt,
                     source = Some ''youtube.com'',
                     thumbnail = None,
                     description = Some (JStr ''Find video tutorials on YouTube.'')\<rparr>]))"

text \<open>Step 4: the test of the filter.\<close>

definition isRoot :: "string \<Rightarrow> bool" where
  "isRoot u = (let lower = toLowerCase u in
     lower = ''https://www.youtube.com/'' \<or> lower = ''https://www.google.com/''
     \<or> lower = ''https://youtube.com/'')"

definition drop_roots :: "resource_link list \<Rightarrow> resource_link list" where
  "drop_roots rs = (if length rs > 2 then filter (\<lambda>r. \<not> isRoot (uri r)) rs else rs)"

text \<open>The \<open>try\<close> block after the generation call has returned \<open>response\<close>: steps 1 to 4
  and the returned object. The summary is built from the list before \<open>slice(0, 5)\<close>.\<close>

definition curate :: "host \<Rightarrow> string \<Rightarrow> string \<Rightarrow> response \<Rightarrow> js_error + curated_content" where
  "curate h topicTitle context r =
     (case map_chunks h topicTitle (citations (grounding_chunks_of r)) of
        Inl e \<Rightarrow> Inl e
      | Inr grounded \<Rightarrow>
          (let enriched = enrich h topicTitle (text' r) grounded in
           case (if length enriched = 0 then search_links h topicTitle context else Inr enriched) of
             Inl e \<Rightarrow> Inl e
           | Inr found \<Rightarrow>
               (let kept = drop_roots found
                in Inr \<lparr>summary = ''Here are '' @ show_nat (length kept) @ '' curated resources for ''
                           @ topicTitle @ ''.'',
                         resources = take 5 kept\<rparr>)))"

text \<open>The \<open>catch\<close> block: it encodes the topic title and returns the fallback. It stands
  in no \<open>try\<close> block, so that an exception of \<open>encodeURIComponent\<close> leaves the function.\<close>

definition curation_failed :: "host \<Rightarrow> string \<Rightarrow> js_error + curated_content" where
  "curation_failed h topicTitle =
     (case encodeURIComponent h topicTitle of
        None \<Rightarrow> Inl (URIError ''URI malformed'')
      | Some q \<Rightarrow>
          Inr \<lparr>summary = ''Could not curate specific resources due to an error.'',
               resources =
                 [\<lparr>title = ''Search '' @ dquote @ topicTitle @ dquote @ '' on Google'',
                   uri = ''https://www.google.com/search?q='' @ q,
                   source = Some ''google.com'',
                   thumbnail = None,
                   description = Some (JStr ''Manual search fallback.'')\<rparr>]\<rparr>)"

text \<open>
  \<open>try { ... } catch (error) { ... }\<close> of \<open>runCuratorAgent\<close>, given the outcome of the
  wrapped generation call: what the \<open>try\<close> block returns, or what the \<open>catch\<close> block
  returns or throws when the call or the \<open>try\<close> block threw.
\<close>

definition curated ::
  "host \<Rightarrow> string \<Rightarrow> string \<Rightarrow> js_error + response \<Rightarrow> js_error + curated_content" where
  "curated h topicTitle context outcome =
     (case (case outcome of
              Inl e \<Rightarrow> Inl e
            | Inr r \<Rightarrow> curate h topicTitle context r) of
        Inl e \<Rightarrow> curation_failed h topicTitle
      | Inr content \<Rightarrow> Inr content)"

text \<open>
  \<open>runCuratorAgent\<close>: \<open>generate\<close> is the call \<open>ai.models.generateContent(...)\<close> with the
  prompt built from the topic title and the context. The result is what the function
  returns (\<^const>\<open>Inr\<close>) or throws (\<^const>\<open>Inl\<close>), with the waits of the retry wrapper and the
  state after the last call.
\<close>

definition runCuratorAgent ::
  "host \<Rightarrow> ('s, response) operation \<Rightarrow> string \<Rightarrow> string \<Rightarrow> 's
     \<Rightarrow> (js_error + curated_content) \<times> int list \<times> 's" where
  "runCuratorAgent h generate topicTitle context s =
     (case retryWithBackoff_default generate s of
        (outcome, waits, s') \<Rightarrow> (curated h topicTitle context outcome, waits, s'))"

text \<open>The outcomes in which the \<open>catch\<close> block of \<open>runCuratorAgent\<close> runs: the wrapped
  generation call threw, or the \<open>try\<close> block threw after it.\<close>

definition caught :: "host \<Rightarrow> string \<Rightarrow> string \<Rightarrow> js_error + response \<Rightarrow> bool" where
  "caught h topicTitle context outcome =
     (case outcome of
        Inl e \<Rightarrow> True
      | Inr r \<Rightarrow> (case curate h topicTitle context r of Inl e \<Rightarrow> True | Inr content \<Rightarrow> False))"

text \<open>
  For evaluation on examples: a response with the given citations and text, and a host
  whose \<open>hostname\<close> is what stands between \<open>http://\<close> or \<open>https://\<close> and the next \<open>/\<close>,
  \<open>?\<close> or \<open>#\<close>, in lower case (every other string is refused), whose \<open>JSON.parse\<close> is a
  table of the texts used, whose \<open><\<close> compares numbers, and whose \<open>encodeURIComponent\<close>
  is the one of the strings of the model: letters, digits and \<open>- _ . ! ~ * ' ( )\<close> stay,
  every other character becomes the \<open>%XX\<close> escapes (upper-case hexadecimal digits) of the
  bytes of its UTF-8 encoding, one byte below \<open>U+0080\<close> and two from there to \<open>U+00FF\<close>. No
  string of the model has a surrogate, so it never throws.
\<close>

definition unreserved :: "char \<Rightarrow> bool" where
  "unreserved c = (let n = (of_char c :: nat) in
     (48 \<le> n \<and> n \<le> 57) \<or> (65 \<le> n \<and> n \<le> 90) \<or> (97 \<le> n \<and> n \<le> 122)
     \<or> c \<in> set ''-_.!~*()'' \<or> c = CHR 0x27)"

definition hex_digit :: "nat \<Rightarrow> char" where
  "hex_digit d = (if d < 10 then char_of (48 + d) else char_of (55 + d))"

definition escape :: "nat \<Rightarrow> string" where
  "escape byte = [CHR ''%'', hex_digit (byte div 16), hex_digit (byte mod 16)]"

definition utf8 :: "char \<Rightarrow> nat list" where
  "utf8 c = (let n = (of_char c :: nat) in
     if n < 128 then [n] else [192 + n div 64, 128 + n mod 64])"

definition encode_char :: "char \<Rightarrow> string" where
  "encode_char c = (if unreserved c then [c] else concat (map escape (utf8 c)))"

definition percent_encode :: "string \<Rightarrow> string" where
  "percent_encode s = concat (map encode_char s)"

definition grounded_response :: "(string \<times> string) list \<Rightarrow> string option \<Rightarrow> response" where
  "grounded_response cs txt =
     \<lparr>candidates = Some [\<lparr>groundingMetadata = Some \<lparr>groundingChunks =
        Some (map (\<lambda>(u, t). \<lparr>web = Some \<lparr>grounding_web.uri = Some u, grounding_web.title = Some t\<rparr>\<rparr>) cs)\<rparr>\<rparr>],
      text' = txt\<rparr>"

definition simple_hostname :: "string \<Rightarrow> string option" where
  "simple_hostname u =
     (let rest = (if startsWith u ''https://'' then Some (drop 8 u)
                  else if startsWith u ''http://'' then Some (drop 7 u) else None)
      in case rest of
           None \<Rightarrow> None
         | Some r \<Rightarrow>
             (let hostname = takeWhile (\<lambda>c. c \<noteq> CHR ''/'' \<and> c \<noteq> CHR ''?'' \<and> c \<noteq> CHR ''#'') r
              in if hostname = [] then None else Some (toLowerCase hostname)))"

definition example_host :: "(string \<times> json) list \<Rightarrow> host" where
  "example_host table =
     \<lparr>URL_hostname = simple_hostname,
      JSON_parse = map_of table,
      less_than = (\<lambda>v n. case v of JNum k \<Rightarrow> k < n | _ \<Rightarrow> False),
      encodeURIComponent = (\<lambda>s. Some (percent_encode s))\<rparr>"

definition returns :: "'a \<Rightarrow> (nat, 'a) operation" where
  "returns v = fails_first 0 (Error []) v"

text \<open>What the theorems below read off a resource: its URI and its thumbnail.\<close>

definition link_of :: "resource_link \<Rightarrow> string \<times> string option" where
  "link_of r = (uri r, thumbnail r)"

definition cited_link :: "string \<times> string \<Rightarrow> string \<times> string option" where
  "cited_link c = (fst c, getYouTubeThumbnail (fst c))"

definition parsable :: "host \<Rightarrow> (string \<times> string) list \<Rightarrow> bool" where
  "parsable h cs = list_all (\<lambda>c. URL_hostname h (fst c) \<noteq> None) cs"

text \<open>The links left by step 4 when the citations \<open>cs\<close> all became resources.\<close>

definition surviving :: "(string \<times> string) list \<Rightarrow> (string \<times> string option) list" where
  "surviving cs =
     (if length cs > 2 then filter (\<lambda>l. \<not> isRoot (fst l)) (map cited_link cs)
      else map cited_link cs)"

definition summary_for :: "nat \<Rightarrow> string \<Rightarrow> string" where
  "summary_for n topicTitle =
     ''Here are '' @ show_nat n @ '' curated resources for '' @ topicTitle @ ''.''"

definition citations_of :: "response \<Rightarrow> (string \<times> string) list" where
  "citations_of r = citations (grounding_chunks_of r)"

text \<open>Citations used in the examples below.\<close>

definition homepages :: "(string \<times> string) list" where
  "homepages =
     [(''https://www.youtube.com/'', ''YouTube''),
      (''https://youtube.com/'', ''YouTube''),
      (''https://www.google.com/'', ''Google'')]"

definition five_pages :: "(string \<times> string) list" where
  "five_pages =
     [(''https://a.example/1'', ''One''), (''https://a.example/2'', ''Two''),
      (''https://a.example/3'', ''Three''), (''https://a.example/4'', ''Four''),
      (''https://a.example/5'', ''Five'')]"

definition watch_url :: string where
  "watch_url = ''https://www.youtube.com/watch?v=abc12345678''"

definition watch_thumbnail :: string where
  "watch_thumbnail = ''https://img.youtube.com/vi/abc12345678/hqdefault.jpg''"

section \<open>The Planner Agent\<close>

text \<open>
  An object is an association list; \<open>put k v\<close> is what a later \<open>k: v\<close> of an object
  literal does to the members spread before it, and \<open>spread\<close> gives the own enumerable
  properties that \<open>{...value}\<close> copies: the members of an object, the elements of an array
  and the characters of a string under their indices, nothing for \<open>null\<close>, a number or
  a boolean.
\<close>

fun put :: "string \<Rightarrow> json \<Rightarrow> (string \<times> json) list \<Rightarrow> (string \<times> json) list" where
  "put k v [] = [(k, v)]"
| "put k v ((k', v') # kvs) = (if k' = k then (k, v) # kvs else (k', v') # put k v kvs)"

definition indexed :: "'a list \<Rightarrow> (nat \<times> 'a) list" where
  "indexed xs = zip [0..<length xs] xs"

fun spread :: "json \<Rightarrow> (string \<times> json) list" where
  "spread (JObj kvs) = kvs"
| "spread (JArr xs) = map (\<lambda>(i, x). (show_nat i, x)) (indexed xs)"
| "spread (JStr s) = map (\<lambda>(i, c). (show_nat i, JStr [c])) (indexed s)"
| "spread v = []"

text \<open>\<open>{ ...top, id: `m${mIdx}-t${tIdx}` }\<close>\<close>

definition with_id :: "nat \<Rightarrow> nat \<Rightarrow> json \<Rightarrow> json" where
  "with_id mIdx tIdx top' =
     JObj (put ''id'' (JStr (''m'' @ show_nat mIdx @ ''-t'' @ show_nat tIdx)) (spread top'))"

text \<open>
  The callback of \<open>data.modules.map((mod, mIdx) => ...)\<close>. \<open>mod.topics.map\<close> is a function
  only when \<open>mod.topics\<close> is an array (a JSON value has no other function-valued \<open>map\<close>);
  reading \<open>topics\<close> of \<open>null\<close>, or calling \<open>map\<close> on anything else, throws a \<open>TypeError\<close>.
\<close>

definition process_module :: "nat \<Rightarrow> json \<Rightarrow> js_error + json" where
  "process_module mIdx mod' =
     (case member mod' ''topics'' of
        Some (JArr tops) \<Rightarrow>
          Inr (JObj (put ''topics''
            (JArr (map (\<lambda>(tIdx, top'). with_id mIdx tIdx top') (indexed tops))) (spread mod')))
      | _ \<Rightarrow> Inl (TypeError ''Cannot read properties (reading map)''))"

fun process_modules :: "nat \<Rightarrow> json list \<Rightarrow> js_error + json list" where
  "process_modules mIdx [] = Inr []"
| "process_modules mIdx (m # ms) =
     (case process_module mIdx m of
        Inl e \<Rightarrow> Inl e
      | Inr pm \<Rightarrow>
          (case process_modules (Suc mIdx) ms of
             Inl e \<Rightarrow> Inl e
           | Inr pms \<Rightarrow> Inr (pm # pms)))"

text \<open>
  The \<open>try\<close> block of \<open>runPlannerAgent\<close> from the outcome of the wrapped generation call on;
  the \<open>catch\<close> block logs and rethrows, so that an error of the block is the error of the
  function. \<open>uuid\<close> and \<open>now\<close> are the values of \<open>crypto.randomUUID()\<close> and \<open>Date.now()\<close>.
  The returned object is the parsed one with \<open>id\<close>, \<open>createdAt\<close> and \<open>modules\<close> set.
\<close>

definition planned :: "host \<Rightarrow> string \<Rightarrow> int \<Rightarrow> js_error + response \<Rightarrow> js_error + json" where
  "planned h uuid now outcome =
     (case outcome of
        Inl e \<Rightarrow> Inl e
      | Inr r \<Rightarrow>
          (case text' r of
             None \<Rightarrow> Inl (Error ''No response from Planner Agent'')
           | Some t \<Rightarrow>
               if t = [] then Inl (Error ''No response from Planner Agent'')
               else (case JSON_parse h (trim (remove_fences t)) of
                  None \<Rightarrow> Inl (SyntaxError ''Unexpected token'')
                | Some data \<Rightarrow>
                    (case member data ''modules'' of
                       Some (JArr mods) \<Rightarrow>
                         (case process_modules 0 mods of
                            Inl e \<Rightarrow> Inl e
                          | Inr processedModules \<Rightarrow>
                              Inr (JObj (put ''modules'' (JArr processedModules)
                                (put ''createdAt'' (JNum now)
                                  (put ''id'' (JStr uuid) (spread data))))))
                     | _ \<Rightarrow> Inl (TypeError ''Cannot read properties (reading map)'')))))"

definition runPlannerAgent ::
  "host \<Rightarrow> string \<Rightarrow> int \<Rightarrow> ('s, response) operation \<Rightarrow> 's
     \<Rightarrow> (js_error + json) \<times> int list \<times> 's" where
  "runPlannerAgent h uuid now generate s =
     (case retryWithBackoff_default generate s of
        (outcome, waits, s') \<Rightarrow> (planned h uuid now outcome, waits, s'))"

text \<open>What the code needs of the parsed value: an array \<open>modules\<close> whose elements each
  have an array \<open>topics\<close>.\<close>

definition has_topics :: "json \<Rightarrow> bool" where
  "has_topics m = (case member m ''topics'' of Some (JArr tops) \<Rightarrow> True | _ \<Rightarrow> False)"

definition well_shaped :: "json \<Rightarrow> bool" where
  "well_shaped data =
     (case member data ''modules'' of
        Some (JArr mods) \<Rightarrow> list_all has_topics mods
      | _ \<Rightarrow> False)"

text \<open>The requirement of the specification: every field that the planner schema lists
  as required is present, at the top, in every module and in every topic.\<close>

definition has_members :: "string list \<Rightarrow> json \<Rightarrow> bool" where
  "has_members ks v = list_all (\<lambda>k. member v k \<noteq> None) ks"

definition topic_complete :: "json \<Rightarrow> bool" where
  "topic_complete top' = has_members [''title'', ''description'', ''actionableStep''] top'"

definition module_complete :: "json \<Rightarrow> bool" where
  "module_complete m =
     (has_members [''title'', ''topics''] m
      \<and> (case member m ''topics'' of Some (JArr tops) \<Rightarrow> list_all topic_complete tops | _ \<Rightarrow> True))"

definition schema_complete :: "json \<Rightarrow> bool" where
  "schema_complete data =
     (has_members [''title'', ''description'', ''modules''] data
      \<and> (case member data ''modules'' of Some (JArr mods) \<Rightarrow> list_all module_complete mods | _ \<Rightarrow> True))"

text \<open>Texts and their parsed values, for the examples: a plan without title and
  description whose only topic has a title and nothing else, and a complete plan.\<close>

definition quoted :: "string \<Rightarrow> string" where
  "quoted s = dquote @ s @ dquote"

definition sparse_text :: string where
  "sparse_text = ''{'' @ quoted ''modules'' @ '':[{'' @ quoted ''topics'' @ '':[{''
     @ quoted ''title'' @ '':'' @ quoted ''Joins'' @ ''}]}]}''"

definition sparse_plan :: json where
  "sparse_plan = JObj [(''modules'', JArr [JObj [(''topics'', JArr [JObj [(''title'', JStr ''Joins'')]])]])]"

definition full_text :: string where
  "full_text = ''{'' @ quoted ''title'' @ '':'' @ quoted ''SQL'' @ '','' @ quoted ''description''
     @ '':'' @ quoted ''Basics'' @ '','' @ quoted ''modules'' @ '':[{'' @ quoted ''title'' @ '':''
     @ quoted ''Queries'' @ '','' @ quoted ''topics'' @ '':[{'' @ quoted ''title'' @ '':''
     @ quoted ''Joins'' @ '','' @ quoted ''description'' @ '':'' @ quoted ''Combine tables''
     @ '','' @ quoted ''actionableStep'' @ '':'' @ quoted ''Write a join'' @ ''}]}]}''"

definition full_plan :: json where
  "full_plan = JObj [(''title'', JStr ''SQL''), (''description'', JStr ''Basics''),
     (''modules'', JArr [JObj [(''title'', JStr ''Queries''),
        (''topics'', JArr [JObj [(''title'', JStr ''Joins''), (''description'', JStr ''Combine tables''),
           (''actionableStep'', JStr ''Write a join'')]])]])]"

definition plan_host :: host where
  "plan_host = example_host [(sparse_text, sparse_plan), (full_text, full_plan)]"

definition text_response :: "string \<Rightarrow> response" where
  "text_response t = \<lparr>candidates = None, text' = Some t\<rparr>"

section \<open>The Orchestration Controller\<close>

text \<open>\<open>types.ts\<close>. The controller reads the plan through these types.\<close>

datatype skill_level = Beginner | Intermediate | Advanced

datatype time_commitment = Low | Medium | High

record user_preferences =
  goal :: string
  skillLevel :: skill_level
  timeCommitment :: time_commitment

record topic =
  id' :: string
  title :: string
  description :: string
  actionableStep :: string
  curatedContent :: "curated_content option"

record module =
  title :: string
  topics :: "topic list"

record curriculum =
  id' :: string
  createdAt :: int
  title :: string
  description :: string
  modules :: "module list"

datatype stage = idle | planning | curating | complete | error

text \<open>The progress of a status is a number: one that the source writes out, or the value
  of \<open>Math.round((i / totalTopics) * 100)\<close>, which is computed in floating-point
  arithmetic and which the model records by its two operands, without evaluating it.\<close>

datatype progress_value = Percent int | Rounded_percent nat nat

record agent_status =
  stage :: stage
  message :: string
  progress :: progress_value
  currentTask :: "string option"

text \<open>
  What \<open>startGeneration\<close> does, in order: the states it publishes with \<open>setStatus\<close> and
  \<open>setCurriculum\<close>, the timeouts it waits for and the agents it calls (the curator with
  its two arguments). A published document is recorded with the content it has when it
  is published. (The documents share their module objects with \<open>enrichedModules\<close>, so
  that a later assignment shows in the documents published before it; after the last
  \<open>setCurriculum\<close> of a run nothing is assigned, and the last document stays as it was
  published.)
\<close>

datatype event =
    SetStatus agent_status
  | SetCurriculum curriculum
  | Timeout nat
  | CallPlanner user_preferences
  | CallCurator string string

text \<open>The two nested \<open>forEach\<close> loops that flatten the plan.\<close>

definition allTopics :: "curriculum \<Rightarrow> (topic \<times> nat \<times> nat) list" where
  "allTopics plan =
     concat (map (\<lambda>(mIdx, mod').
        map (\<lambda>(tIdx, top'). (top', mIdx, tIdx)) (indexed (topics mod'))) (indexed (modules plan)))"

text \<open>\<open>enrichedModules[moduleIndex].topics[topicIndex] = { ...topic, curatedContent }\<close>.
  The indices come from \<open>allTopics\<close>, so that they are within the lists.\<close>

definition merge_content ::
  "module list \<Rightarrow> nat \<Rightarrow> nat \<Rightarrow> topic \<Rightarrow> curated_content \<Rightarrow> module list" where
  "merge_content ms m t tp content =
     ms[m := (ms ! m)\<lparr>topics := (topics (ms ! m))[t := tp\<lparr>curatedContent := Some content\<rparr>]\<rparr>]"

definition curating_status :: "nat \<Rightarrow> nat \<Rightarrow> nat \<Rightarrow> topic \<Rightarrow> agent_status" where
  "curating_status i totalTopics m tp =
     \<lparr>stage = curating,
      message = ''Curating resources for Module '' @ show_nat (m + 1) @ ''...'',
      progress = Rounded_percent i totalTopics,
      currentTask = Some (topic.title tp)\<rparr>"

definition curator_context :: "user_preferences \<Rightarrow> string \<Rightarrow> string" where
  "curator_context prefs moduleTitle =
     ''Course Goal: '' @ goal prefs @ ''. Module: '' @ moduleTitle"

text \<open>
  The curator as the controller sees it: the outcome of its \<open>i\<close>-th call, given the
  arguments of the call. (\<open>runCuratorAgent\<close> throws only from its \<open>catch\<close> block; the
  controller's \<open>catch\<close> is written for any callee.)
\<close>

type_synonym curator = "nat \<Rightarrow> string \<Rightarrow> string \<Rightarrow> js_error + curated_content"

text \<open>
  The \<open>for\<close> loop from iteration \<open>i\<close> on, over the remaining entries of \<open>allTopics\<close>, with
  the current \<open>enrichedModules\<close>: the events, the exception that left the loop (if one
  did) and \<open>enrichedModules\<close> at that point. Reading \<open>enrichedModules[moduleIndex].title\<close>
  throws when the module is not there.
\<close>

fun curation_loop ::
  "curator \<Rightarrow> user_preferences \<Rightarrow> curriculum \<Rightarrow> nat \<Rightarrow> nat \<Rightarrow> (topic \<times> nat \<times> nat) list
     \<Rightarrow> module list \<Rightarrow> event list \<times> js_error option \<times> module list" where
  "curation_loop cur prefs plan totalTopics i [] ms = ([], None, ms)"
| "curation_loop cur prefs plan totalTopics i ((tp, m, t) # rest) ms =
     (let before = (if i > 0 then [Timeout 6000] else [])
            @ [SetStatus (curating_status i totalTopics m tp)]
      in if length ms \<le> m then (before, Some (TypeError ''Cannot read properties''), ms)
         else
           (let context = curator_context prefs (module.title (ms ! m));
                call = CallCurator (topic.title tp) context
            in case cur i (topic.title tp) context of
                 Inl e \<Rightarrow> (before @ [call], Some e, ms)
               | Inr content \<Rightarrow>
                   (let ms' = merge_content ms m t tp content
                    in case curation_loop cur prefs plan totalTopics (Suc i) rest ms' of
                         (evs, thrown, final) \<Rightarrow>
                           (before @ [call, SetCurriculum (plan\<lparr>modules := ms'\<rparr>)] @ evs,
                            thrown, final))))"

definition error_status :: agent_status where
  "error_status =
     \<lparr>stage = error,
      message = ''An error occurred while generating the curriculum. Please check your API key or try again.'',
      progress = Percent 0,
      currentTask = None\<rparr>"

text \<open>\<open>startGeneration(prefs)\<close>, given the outcome of \<open>runPlannerAgent(prefs)\<close> and the
  curator.\<close>

definition startGeneration ::
  "js_error + curriculum \<Rightarrow> curator \<Rightarrow> user_preferences \<Rightarrow> event list" where
  "startGeneration planner cur prefs =
     [SetStatus \<lparr>stage = planning, message = ''Planner Agent is designing the syllabus...'',
        progress = Percent 0, currentTask = None\<rparr>,
      CallPlanner prefs]
     @ (case planner of
          Inl e \<Rightarrow> [SetStatus error_status]
        | Inr plan \<Rightarrow>
            [SetCurriculum plan,
             SetStatus \<lparr>stage = curating, message = ''Curator Agent is finding resources...'',
               progress = Percent 0, currentTask = None\<rparr>]
            @ (case curation_loop cur prefs plan (length (allTopics plan)) 0 (allTopics plan)
                      (modules plan) of
                 (evs, None, final) \<Rightarrow>
                   evs @ [SetStatus \<lparr>stage = complete, message = ''Curriculum ready!'',
                     progress = Percent 100, currentTask = None\<rparr>]
               | (evs, Some e, final) \<Rightarrow> evs @ [SetStatus error_status]))"

text \<open>Reading a trace: the curator calls, the documents published, and the content of a
  topic in a list of modules.\<close>

fun curator_calls :: "event list \<Rightarrow> (string \<times> string) list" where
  "curator_calls [] = []"
| "curator_calls (CallCurator a b # evs) = (a, b) # curator_calls evs"
| "curator_calls (ev # evs) = curator_calls evs"

fun documents :: "event list \<Rightarrow> curriculum list" where
  "documents [] = []"
| "documents (SetCurriculum d # evs) = d # documents evs"
| "documents (ev # evs) = documents evs"

definition content_at :: "module list \<Rightarrow> nat \<times> nat \<Rightarrow> curated_content option" where
  "content_at ms p = curatedContent (topics (ms ! fst p) ! snd p)"

text \<open>The outcome of the curator's \<open>j\<close>-th call in a run over \<open>plan\<close>.\<close>

definition call_outcome ::
  "curator \<Rightarrow> user_preferences \<Rightarrow> curriculum \<Rightarrow> nat \<Rightarrow> js_error + curated_content" where
  "call_outcome cur prefs plan j =
     (case allTopics plan ! j of
        (tp, m, t) \<Rightarrow>
          cur j (topic.title tp) (curator_context prefs (module.title (modules plan ! m))))"

text \<open>A plan and a curator for the examples: two modules with two topics and one topic;
  the curator returns for its first two calls and throws at the third.\<close>

definition sample_topic :: "string \<Rightarrow> string \<Rightarrow> topic" where
  "sample_topic i t =
     \<lparr>topic.id' = i, topic.title = t, topic.description = ''d'', actionableStep = ''a'',
      curatedContent = None\<rparr>"

definition sample_plan :: curriculum where
  "sample_plan =
     \<lparr>id' = ''uuid-1'', createdAt = 1700000000000, title = ''SQL'', description = ''Basics'',
      modules =
        [\<lparr>module.title = ''Queries'', topics = [sample_topic ''m0-t0'' ''Select'', sample_topic ''m0-t1'' ''Joins'']\<rparr>,
         \<lparr>module.title = ''Schema'', topics = [sample_topic ''m1-t0'' ''Keys'']\<rparr>]\<rparr>"

definition sample_prefs :: user_preferences where
  "sample_prefs = \<lparr>goal = ''Learn SQL basics'', skillLevel = Beginner, timeCommitment = Low\<rparr>"

definition throws_at :: "nat \<Rightarrow> curator" where
  "throws_at k i t c =
     (if i = k then Inl (Error ''boom'')
      else Inr \<lparr>summary = ''Here are 0 curated resources for '' @ t @ ''.'', resources = []\<rparr>)"

text \<open>What the loop keeps of \<open>enrichedModules\<close>: the titles of the modules and the numbers
  of their topics. A position is within a list of modules when both indices are.\<close>

definition shape :: "module list \<Rightarrow> (string \<times> nat) list" where
  "shape ms = map (\<lambda>md. (module.title md, length (topics md))) ms"

definition in_range :: "module list \<Rightarrow> nat \<times> nat \<Rightarrow> bool" where
  "in_range ms p = (fst p < length ms \<and> snd p < length (topics (ms ! fst p)))"

text \<open>The arguments and the outcome of the call made at iteration \<open>i\<close> for an entry of
  \<open>allTopics\<close>, with the current modules.\<close>

definition call_args :: "user_preferences \<Rightarrow> module list \<Rightarrow> topic \<times> nat \<times> nat \<Rightarrow> string \<times> string" where
  "call_args prefs ms x =
     (case x of (tp, m, t) \<Rightarrow> (topic.title tp, curator_context prefs (module.title (ms ! m))))"

definition step_outcome ::
  "curator \<Rightarrow> user_preferences \<Rightarrow> module list \<Rightarrow> nat \<Rightarrow> topic \<times> nat \<times> nat
     \<Rightarrow> js_error + curated_content" where
  "step_outcome cur prefs ms i x = (case call_args prefs ms x of (a, b) \<Rightarrow> cur i a b)"

text \<open>The entries of \<open>allTopics\<close> for a list of modules whose first has index \<open>k\<close>.\<close>

definition topics_from :: "nat \<Rightarrow> module list \<Rightarrow> (topic \<times> nat \<times> nat) list" where
  "topics_from k mds =
     concat (map (\<lambda>(mIdx, mod').
        map (\<lambda>(tIdx, top'). (top', mIdx, tIdx)) (indexed (topics mod')))
        (zip [k..<k + length mds] mds))"

section \<open>Evaluation lemmas\<close>

lemma lower_char_Char [simp]:
  "lower_char (Char b0 b1 b2 b3 b4 b5 b6 b7) =
    (let n = (of_char (Char b0 b1 b2 b3 b4 b5 b6 b7) :: nat) in
     if (65 \<le> n \<and> n \<le> 90) \<or> (192 \<le> n \<and> n \<le> 222 \<and> n \<noteq> 215)
     then Char b0 b1 b2 b3 b4 True b6 b7
     else Char b0 b1 b2 b3 b4 b5 b6 b7)"
  unfolding lower_char_def Let_def
  by (cases b0; cases b1; cases b2; cases b3; cases b4; cases b5; cases b6; cases b7;
      simp add: char_of_def bit_Suc_0_iff)

lemma toLowerCase_simps [simp]:
  "toLowerCase [] = []"
  "toLowerCase (c # cs) = lower_char c # toLowerCase cs"
  by (simp_all add: toLowerCase_def)

lemma toLowerCase_append [simp]: "toLowerCase (a @ b) = toLowerCase a @ toLowerCase b"
  by (simp add: toLowerCase_def)

lemma length_toLowerCase [simp]: "length (toLowerCase s) = length s"
  by (simp add: toLowerCase_def)

section \<open>URL normalization\<close>

lemma normalizeUrl_examples:
  "normalizeUrl ''http://Example.com/X'' = ''example.com/x''"
  "normalizeUrl ''https://www.example.com/x'' = ''example.com/x''"
  "normalizeUrl ''example.com/x'' = ''example.com/x''"
  by (simp_all add: normalizeUrl_def strip_scheme_def strip_www_def remove_at_end_def
      startsWith_def endsWith_def)

lemma toLowerCase_drop: "toLowerCase s = s \<Longrightarrow> toLowerCase (drop n s) = drop n s"
  by (metis drop_map toLowerCase_def)

lemma toLowerCase_take: "toLowerCase s = s \<Longrightarrow> toLowerCase (take n s) = take n s"
  by (metis take_map toLowerCase_def)

lemma normalizeUrl_agrees_on_lower_case:
  assumes "toLowerCase u = u"
  shows "normalizeUrl u = normalizeUrl_spec u"
proof -
  have a: "toLowerCase (strip_scheme u) = strip_scheme u"
    using assms by (simp add: strip_scheme_def toLowerCase_drop)
  then have b: "toLowerCase (strip_www (strip_scheme u)) = strip_www (strip_scheme u)"
    by (simp add: strip_www_def toLowerCase_drop)
  then have "toLowerCase (remove_at_end ''/'' (strip_www (strip_scheme u)))
      = remove_at_end ''/'' (strip_www (strip_scheme u))"
    by (simp add: remove_at_end_def toLowerCase_take)
  then show ?thesis using assms by (simp add: normalizeUrl_def normalizeUrl_spec_def)
qed

text \<open>
  C6. \<open>normalizeUrl\<close> removes the scheme and \<open>www.\<close> before it lower-cases, and
  compares them case-sensitively: an upper-case scheme stays in the key, where the
  specification's rule (lower-case first) removes it. The three URIs of the
  specification do get the one key \<open>example.com/x\<close> under both.
\<close>

theorem normalizeUrl_upper_case_scheme:
  "normalizeUrl ''HTTP://Example.com/X'' = ''http://example.com/x''
   \<and> normalizeUrl_spec ''HTTP://Example.com/X'' = ''example.com/x''
   \<and> normalizeUrl ''http://Example.com/X'' = ''example.com/x''
   \<and> normalizeUrl ''https://www.example.com/x'' = ''example.com/x''
   \<and> normalizeUrl ''example.com/x'' = ''example.com/x''"
  by (simp add: normalizeUrl_def normalizeUrl_spec_def strip_scheme_def strip_www_def
      remove_at_end_def startsWith_def endsWith_def)

section \<open>Title cleaning\<close>

lemma cleanTitle_fixed: "already_clean c \<Longrightarrow> cleanTitle (Some c) u topic = c"
  by (simp add: already_clean_def cleanTitle_def Let_def)

lemma endsWith_iff: "endsWith s p \<longleftrightarrow> (\<exists>pre. s = pre @ p)"
proof
  assume "endsWith s p"
  then have "s = take (length s - length p) s @ p"
    by (metis append_take_drop_id endsWith_def)
  then show "\<exists>pre. s = pre @ p" ..
next
  assume "\<exists>pre. s = pre @ p"
  then show "endsWith s p" by (auto simp: endsWith_def)
qed

lemma remove_at_end_unchanged: "\<not> endsWith s p \<Longrightarrow> remove_at_end p s = s"
  by (simp add: remove_at_end_def)

lemma synthesized_rev:
  "rev (synthesized b topic) = (if b then rev '' (Video)'' else rev '' Guide'') @ rev topic"
  by (simp add: synthesized_def)

lemma not_endsWith_synth:
  assumes "p \<in> {'' - YouTube'', '' | Coursera'', '' - GeeksforGeeks'', '' - Wikipedia''}"
  shows "\<not> endsWith (synthesized b topic) p"
proof
  assume "endsWith (synthesized b topic) p"
  then obtain pre where "synthesized b topic = pre @ p" by (auto simp: endsWith_iff)
  then have "rev (synthesized b topic) = rev p @ rev pre" by simp
  with assms show False by (auto simp: synthesized_rev split: if_splits)
qed

lemma remove_suffixes_synth: "remove_suffixes (synthesized b topic) = synthesized b topic"
  by (simp add: remove_suffixes_def remove_at_end_unchanged not_endsWith_synth)

lemma trim_synth:
  assumes "topic \<noteq> []" "\<not> is_space (hd topic)"
  shows "trim (synthesized b topic) = synthesized b topic"
proof -
  obtain a as where t: "topic = a # as" using assms(1) by (cases topic) auto
  have "\<not> is_space a" using assms(2) t by simp
  then show ?thesis
    by (simp add: trim_def synthesized_def t is_space_def)
qed

lemma startsWith_http_append:
  assumes "startsWith (xs @ '' '' @ ys) ''http''"
  shows "startsWith xs ''http''"
proof -
  consider "xs = []" | a where "xs = [a]" | a b where "xs = [a, b]" | a b c where "xs = [a, b, c]"
    | a b c d zs where "xs = a # b # c # d # zs"
    by (metis list.exhaust)
  then show ?thesis using assms by cases (auto simp: startsWith_def)
qed

lemma trim_prefix: "\<exists>suf. dropWhile is_space s = trim s @ suf"
proof -
  let ?d = "dropWhile is_space s"
  have "rev ?d = takeWhile is_space (rev ?d) @ dropWhile is_space (rev ?d)" by simp
  then have "rev (rev ?d) = rev (takeWhile is_space (rev ?d) @ dropWhile is_space (rev ?d))"
    by (rule arg_cong)
  then have "?d = trim s @ rev (takeWhile is_space (rev ?d))"
    unfolding trim_def rev_rev_ident rev_append .
  then show ?thesis ..
qed

lemma trim_hd: assumes "trim s \<noteq> []" shows "\<not> is_space (hd (trim s))"
proof -
  obtain suf where d: "dropWhile is_space s = trim s @ suf" using trim_prefix by blast
  then have "dropWhile is_space s \<noteq> []" using assms by simp
  then have "\<not> is_space (hd (dropWhile is_space s))" by (rule hd_dropWhile)
  then show ?thesis using d assms by simp
qed

lemma remove_at_end_hd:
  assumes "x \<noteq> []" "\<not> is_space (hd x)" "p \<noteq> []" "is_space (hd p)"
  shows "remove_at_end p x \<noteq> [] \<and> hd (remove_at_end p x) = hd x"
proof (cases "endsWith x p")
  case False
  then show ?thesis using assms by (simp add: remove_at_end_def)
next
  case True
  then obtain pre where x: "x = pre @ p" by (auto simp: endsWith_iff)
  have "pre \<noteq> []" using assms x by auto
  moreover have "remove_at_end p x = pre" using True x by (simp add: remove_at_end_def)
  ultimately show ?thesis using x by simp
qed

lemma remove_suffixes_hd:
  assumes "x \<noteq> []" "\<not> is_space (hd x)"
  shows "remove_suffixes x \<noteq> [] \<and> hd (remove_suffixes x) = hd x"
proof -
  have sp: "is_space (hd '' - YouTube'')" "is_space (hd '' | Coursera'')"
    "is_space (hd '' - GeeksforGeeks'')" "is_space (hd '' - Wikipedia'')"
    by (simp_all add: is_space_def)
  let ?a = "remove_at_end '' - YouTube'' x"
  let ?b = "remove_at_end '' | Coursera'' ?a"
  let ?c = "remove_at_end '' - GeeksforGeeks'' ?b"
  have a: "?a \<noteq> [] \<and> hd ?a = hd x" using remove_at_end_hd [OF assms _ sp(1)] by simp
  then have b: "?b \<noteq> [] \<and> hd ?b = hd x"
    using remove_at_end_hd [of ?a "'' | Coursera''"] assms(2) sp(2) by simp
  then have c: "?c \<noteq> [] \<and> hd ?c = hd x"
    using remove_at_end_hd [of ?b "'' - GeeksforGeeks''"] assms(2) sp(3) by simp
  then show ?thesis
    using remove_at_end_hd [of ?c "'' - Wikipedia''"] assms(2) sp(4)
    by (simp add: remove_suffixes_def)
qed

lemma cleanTitle_None:
  "cleanTitle None u topic =
     synthesized (js_includes (normalizeUrl u) ''youtube'' \<or> js_includes (normalizeUrl u) ''youtu.be''
       \<or> js_includes (normalizeUrl u) ''vimeo'') topic"
  by (simp add: cleanTitle_def Let_def)

lemma cleanTitle_blank:
  "s = [] \<or> trim s = [] \<Longrightarrow> cleanTitle (Some s) u topic =
     synthesized (js_includes (normalizeUrl u) ''youtube'' \<or> js_includes (normalizeUrl u) ''youtu.be''
       \<or> js_includes (normalizeUrl u) ''vimeo'') topic"
  by (simp add: cleanTitle_def Let_def)

lemma cleanTitle_generic:
  "\<not> (s = [] \<or> trim s = []) \<Longrightarrow> generic (toLowerCase (remove_suffixes (trim s))) \<Longrightarrow>
   cleanTitle (Some s) u topic =
     synthesized (js_includes (normalizeUrl u) ''youtube'' \<or> js_includes (normalizeUrl u) ''youtu.be'') topic"
  by (simp add: cleanTitle_def Let_def)

lemma cleanTitle_plain:
  "\<not> (s = [] \<or> trim s = []) \<Longrightarrow> \<not> generic (toLowerCase (remove_suffixes (trim s))) \<Longrightarrow>
   cleanTitle (Some s) u topic = remove_suffixes (trim s)"
  by (simp add: cleanTitle_def Let_def)


lemma rev_dropWhile_last:
  assumes "x \<noteq> []" "\<not> is_space (last x)"
  shows "rev (dropWhile is_space (rev x)) = x"
  using assms by (cases x rule: rev_cases) simp_all

lemma synthesized_ending: "synthesized b topic = topic @ '' '' @ ending b"
  by (simp add: synthesized_def ending_def)

lemma ending_facts:
  "ending b \<noteq> []" "\<not> is_space (hd (ending b))" "\<not> is_space (last (ending b))"
  by (simp_all add: ending_def is_space_def)

lemma trim_synth_general:
  "trim (synthesized b topic) =
     (if dropWhile is_space topic = [] then ending b
      else dropWhile is_space topic @ '' '' @ ending b)"
proof (cases "dropWhile is_space topic = []")
  case True
  then have "\<forall>x \<in> set topic. is_space x" by (simp add: dropWhile_eq_Nil_conv)
  then have "dropWhile is_space (synthesized b topic) = ending b"
    unfolding synthesized_ending by (simp add: dropWhile_append is_space_def ending_def)
  then show ?thesis using True ending_facts by (simp add: trim_def rev_dropWhile_last)
next
  case False
  then obtain x where "x \<in> set topic" "\<not> is_space x" by (auto simp: dropWhile_eq_Nil_conv)
  then have "dropWhile is_space (synthesized b topic) = dropWhile is_space topic @ '' '' @ ending b"
    unfolding synthesized_ending by (rule dropWhile_append1)
  then have t: "trim (synthesized b topic) =
      rev (dropWhile is_space (rev (dropWhile is_space topic @ '' '' @ ending b)))"
    by (simp only: trim_def)
  have "last (dropWhile is_space topic @ '' '' @ ending b) = last (ending b)"
    using ending_facts by simp
  then have "\<not> is_space (last (dropWhile is_space topic @ '' '' @ ending b))"
    using ending_facts by simp
  moreover have "dropWhile is_space topic @ '' '' @ ending b \<noteq> []" by simp
  ultimately have "rev (dropWhile is_space (rev (dropWhile is_space topic @ '' '' @ ending b)))
      = dropWhile is_space topic @ '' '' @ ending b"
    using rev_dropWhile_last by blast
  then show ?thesis using False t by simp
qed

lemma not_endsWith_ending:
  assumes "p \<in> {'' - YouTube'', '' | Coursera'', '' - GeeksforGeeks'', '' - Wikipedia''}"
  shows "\<not> endsWith (x @ ending b) p"
proof
  assume "endsWith (x @ ending b) p"
  then obtain pre where "x @ ending b = pre @ p" by (auto simp: endsWith_iff)
  then have "rev (x @ ending b) = rev p @ rev pre" by simp
  with assms show False by (auto simp: ending_def split: if_splits)
qed

lemma remove_suffixes_ending: "remove_suffixes (x @ ending b) = x @ ending b"
  by (simp add: remove_suffixes_def remove_at_end_unchanged not_endsWith_ending)

lemma trim_synth_ending: "\<exists>x. trim (synthesized b topic) = x @ ending b"
proof (cases "dropWhile is_space topic = []")
  case True
  then have "trim (synthesized b topic) = [] @ ending b" by (simp add: trim_synth_general)
  then show ?thesis ..
next
  case False
  then have "trim (synthesized b topic) = (dropWhile is_space topic @ '' '') @ ending b"
    by (simp add: trim_synth_general)
  then show ?thesis ..
qed

lemma startsWith_append: "startsWith xs p \<Longrightarrow> startsWith (xs @ ys) p"
  by (auto simp: startsWith_def) (metis take_all_iff nat_le_linear)

lemma generic_trim_synth:
  "generic (toLowerCase (trim (synthesized b topic))) \<longleftrightarrow> http_topic topic"
proof (cases "dropWhile is_space topic = []")
  case True
  have "trim (synthesized b topic) = ending b" using True by (simp add: trim_synth_general)
  moreover have "\<not> generic (toLowerCase (ending b))"
    by (simp add: ending_def generic_def startsWith_def)
  moreover have "\<not> http_topic topic" unfolding http_topic_def True by (simp add: startsWith_def)
  ultimately show ?thesis by simp
next
  case False
  let ?d = "dropWhile is_space topic"
  let ?l = "toLowerCase ?d @ '' '' @ toLowerCase (ending b)"
  have t: "toLowerCase (trim (synthesized b topic)) = ?l"
    using False by (simp add: trim_synth_general)
  have "?l \<noteq> w" if "w \<in> {''youtube'', ''youtube.com'', ''video'', ''article'', ''home'', ''index''}" for w
  proof
    assume "?l = w"
    then have "rev ?l = rev w" by simp
    with that show False by (auto simp: ending_def split: if_splits)
  qed
  then have "generic ?l \<longleftrightarrow> startsWith ?l ''http''" by (simp add: generic_def)
  also have "\<dots> \<longleftrightarrow> startsWith (toLowerCase ?d) ''http''"
    using startsWith_http_append startsWith_append by blast
  finally show ?thesis unfolding t http_topic_def .
qed

lemma trim_synth_not_Nil: "trim (synthesized b topic) \<noteq> []"
  using ending_facts(1) by (simp add: trim_synth_general)

lemma cleanTitle_synth:
  "cleanTitle (Some (synthesized b topic)) u topic =
     (if http_topic topic then synthesized (isVideo_generic u) topic
      else trim (synthesized b topic))"
proof -
  let ?r = "synthesized b topic"
  have nb: "\<not> (?r = [] \<or> trim ?r = [])" using trim_synth_not_Nil by (simp add: synthesized_def)
  obtain x where x: "trim ?r = x @ ending b" using trim_synth_ending by blast
  have rs: "remove_suffixes (trim ?r) = trim ?r" unfolding x by (rule remove_suffixes_ending)
  show ?thesis
  proof (cases "http_topic topic")
    case True
    then have "generic (toLowerCase (remove_suffixes (trim ?r)))"
      unfolding rs by (simp add: generic_trim_synth)
    then show ?thesis using True cleanTitle_generic [OF nb] by (simp add: isVideo_generic_def)
  next
    case False
    then have "\<not> generic (toLowerCase (remove_suffixes (trim ?r)))"
      unfolding rs by (simp add: generic_trim_synth)
    then show ?thesis using False cleanTitle_plain [OF nb] rs by simp
  qed
qed

lemma trim_synth_iff: "trim (synthesized b topic) = synthesized b topic \<longleftrightarrow> plain_topic topic"
proof
  assume "plain_topic topic"
  then show "trim (synthesized b topic) = synthesized b topic"
    by (simp add: plain_topic_def trim_synth)
next
  assume e: "trim (synthesized b topic) = synthesized b topic"
  show "plain_topic topic"
  proof (rule ccontr)
    assume "\<not> plain_topic topic"
    then have "length (dropWhile is_space topic) < length topic \<or> topic = []"
      by (cases topic) (auto simp: plain_topic_def intro: le_imp_less_Suc length_dropWhile_le)
    moreover have "length (trim (synthesized b topic)) =
        (if dropWhile is_space topic = [] then length (ending b)
         else length (dropWhile is_space topic) + 1 + length (ending b))"
      by (simp add: trim_synth_general)
    moreover have "length (synthesized b topic) = length topic + 1 + length (ending b)"
      by (simp add: synthesized_ending)
    ultimately have "length (trim (synthesized b topic)) < length (synthesized b topic)"
      by (auto split: if_splits)
    then show False using e by simp
  qed
qed

lemma synthesized_inj: "synthesized a topic = synthesized b topic \<longleftrightarrow> a = b"
  by (auto simp: synthesized_def)

lemma cleanTitle_synth_fixed:
  "cleanTitle (Some (synthesized b topic)) u topic = synthesized b topic \<longleftrightarrow>
     (if http_topic topic then b = isVideo_generic u else plain_topic topic)"
  by (auto simp: cleanTitle_synth synthesized_inj trim_synth_iff)

lemma length_trim_le: "length (trim x) \<le> length x"
proof -
  have "length (trim x) \<le> length (dropWhile is_space x)"
    unfolding trim_def length_rev by (metis length_dropWhile_le length_rev)
  then show ?thesis using length_dropWhile_le [of is_space x] by linarith
qed

lemma length_remove_at_end_le: "length (remove_at_end p x) \<le> length x"
  by (simp add: remove_at_end_def)

lemma length_remove_suffixes_le: "length (remove_suffixes x) \<le> length x"
  unfolding remove_suffixes_def
  by (meson length_remove_at_end_le order_trans)

lemma remove_suffixes_changed:
  assumes "remove_suffixes c \<noteq> c"
  shows "\<exists>p \<in> {'' - YouTube'', '' | Coursera'', '' - GeeksforGeeks'', '' - Wikipedia''}. endsWith c p"
proof (rule ccontr)
  assume "\<not> ?thesis"
  then have "remove_suffixes c = c" by (simp add: remove_suffixes_def remove_at_end_unchanged)
  with assms show False by simp
qed

lemma trim_changed_last:
  assumes "c \<noteq> []" "\<not> is_space (hd c)" "trim c \<noteq> c"
  shows "is_space (last c)"
proof (rule ccontr)
  assume n: "\<not> is_space (last c)"
  have "dropWhile is_space c = c" using assms(1,2) by (cases c) auto
  then have "trim c = c" using assms(1) n by (simp add: trim_def rev_dropWhile_last)
  with assms(3) show False by simp
qed

lemma last_synthesized: "\<not> is_space (last (synthesized b topic))"
  by (simp add: synthesized_def is_space_def)

lemma cleaned_fixed_iff:
  assumes "c \<noteq> []" "\<not> is_space (hd c)" "\<not> generic (toLowerCase c)"
  shows "cleanTitle (Some c) u topic = c \<longleftrightarrow> settled c"
proof
  assume "settled c"
  then have "already_clean c" using assms by (simp add: already_clean_def settled_def)
  then show "cleanTitle (Some c) u topic = c" by (rule cleanTitle_fixed)
next
  assume f: "cleanTitle (Some c) u topic = c"
  show "settled c"
  proof (rule ccontr)
    assume ns: "\<not> settled c"
    have ne: "\<not> (c = [] \<or> trim c = [])"
    proof -
      have "dropWhile is_space c = c" using assms(1,2) by (cases c) auto
      then have "trim c = rev (dropWhile is_space (rev c))" by (simp add: trim_def)
      moreover have "dropWhile is_space c \<noteq> []" using \<open>dropWhile is_space c = c\<close> assms(1) by simp
      ultimately show ?thesis using assms(1) trim_prefix [of c] by auto
    qed
    have differs: "synthesized b topic \<noteq> c" for b
    proof (cases "trim c = c")
      case False
      then have "is_space (last c)" using trim_changed_last assms(1,2) by blast
      then show ?thesis using last_synthesized by metis
    next
      case True
      then have "remove_suffixes c \<noteq> c" using ns by (simp add: settled_def)
      then obtain p where "p \<in> {'' - YouTube'', '' | Coursera'', '' - GeeksforGeeks'', '' - Wikipedia''}"
        "endsWith c p" using remove_suffixes_changed by blast
      then show ?thesis using not_endsWith_synth by metis
    qed
    show False
    proof (cases "generic (toLowerCase (remove_suffixes (trim c)))")
      case True
      show ?thesis using f differs unfolding cleanTitle_generic [OF ne True] by simp
    next
      case False
      have e: "remove_suffixes (trim c) = c" using f unfolding cleanTitle_plain [OF ne False] .
      have "length c \<le> length (trim c)" using length_remove_suffixes_le [of "trim c"] e by simp
      then have l: "length (trim c) = length c" using length_trim_le [of c] by simp
      have "trim c = c"
      proof (rule ccontr)
        assume "trim c \<noteq> c"
        then have sp: "is_space (last c)" using trim_changed_last assms(1,2) by blast
        have "dropWhile is_space c = c" using assms(1,2) by (cases c) auto
        then have "trim c = rev (dropWhile is_space (rev c))" by (simp add: trim_def)
        moreover have "length (dropWhile is_space (rev c)) < length (rev c)"
        proof -
          obtain ys y where c: "c = ys @ [y]" using assms(1) by (cases c rule: rev_cases) auto
          then have "is_space y" using sp by simp
          then have "dropWhile is_space (rev c) = dropWhile is_space (rev ys)" by (simp add: c)
          then have "length (dropWhile is_space (rev c)) \<le> length ys"
            using length_dropWhile_le [of is_space "rev ys"] by simp
          then show ?thesis by (simp add: c)
        qed
        ultimately show False using l by simp
      qed
      then show ?thesis using e ns by (simp add: settled_def)
    qed
  qed
qed

text \<open>
  C7, as stated: \<open>cleanTitle\<close> is idempotent. It is not: each suffix is removed once, so
  a title that carries a suffix twice loses one per pass.
\<close>

theorem cleanTitle_not_idempotent:
  "cleanTitle (Some (cleanTitle (Some ''Intro - YouTube - YouTube'') ''https://example.com/a'' ''SQL''))
      ''https://example.com/a'' ''SQL''
   \<noteq> cleanTitle (Some ''Intro - YouTube - YouTube'') ''https://example.com/a'' ''SQL''"
  by code_simp

text \<open>
  C7, amended: a second pass of \<open>cleanTitle\<close> changes nothing exactly on the inputs
  described by \<open>stable\<close>, which are these. The title is neither missing, blank nor
  generic after cleaning (the first pass returns the title trimmed, each suffix removed
  once), and that result has no white space and no further suffix at its end. Or the
  title is missing, blank or generic (the first pass returns the topic title with
  \<open>Guide\<close> or \<open>(Video)\<close>), and either the topic title is not empty, has no leading white
  space and does not begin with \<open>http\<close> in any letter case, or the topic title begins
  with \<open>http\<close> in any letter case after its leading white space and both passes choose
  the same ending: always so for a generic title, and for a missing or blank title unless
  the normalized URI contains \<open>vimeo\<close> but neither \<open>youtube\<close> nor \<open>youtu.be\<close>.
\<close>

theorem cleanTitle_idempotent_iff_stable:
  "cleanTitle (Some (cleanTitle t u topic)) u topic = cleanTitle t u topic \<longleftrightarrow> stable t u topic"
proof (cases t)
  case None
  show ?thesis
    unfolding None cleanTitle_None cleanTitle_synth_fixed
    by (simp add: stable_def stable_blank_def isVideo_blank_def isVideo_generic_def)
next
  case (Some s)
  show ?thesis
  proof (cases "s = [] \<or> trim s = []")
    case True
    show ?thesis
      unfolding Some cleanTitle_blank [OF True] cleanTitle_synth_fixed using True
      by (simp add: stable_def stable_blank_def isVideo_blank_def isVideo_generic_def)
  next
    case False
    let ?c = "remove_suffixes (trim s)"
    show ?thesis
    proof (cases "generic (toLowerCase ?c)")
      case True
      show ?thesis
        unfolding Some cleanTitle_generic [OF False True] cleanTitle_synth_fixed using False True
        by (auto simp: stable_def isVideo_generic_def)
    next
      case ng: False
      have "trim s \<noteq> []" using False by simp
      then have c: "?c \<noteq> []" "\<not> is_space (hd ?c)" using remove_suffixes_hd trim_hd by metis+
      show ?thesis
        unfolding Some cleanTitle_plain [OF False ng] cleaned_fixed_iff [OF c ng] using False ng
        by (simp add: stable_def)
    qed
  qed
qed

theorem cleanTitle_idempotent_iff_stable_witness:
  "cleanTitle (Some ''  Intro to SQL - YouTube '') ''https://www.youtube.com/watch?v=abc12345678''
       ''HTTP basics'' = ''Intro to SQL''
   \<and> cleanTitle (Some ''Intro to SQL'') ''https://www.youtube.com/watch?v=abc12345678''
       ''HTTP basics'' = ''Intro to SQL''
   \<and> stable (Some ''  Intro to SQL - YouTube '') ''https://www.youtube.com/watch?v=abc12345678''
       ''HTTP basics''
   \<and> \<not> stable (Some ''Intro - YouTube - YouTube'') ''https://example.com/a'' ''SQL''
   \<and> \<not> stable None ''https://vimeo.com/1'' ''https://a.example''"
proof -
  have c: "cleanTitle (Some ''  Intro to SQL - YouTube '')
      ''https://www.youtube.com/watch?v=abc12345678'' ''HTTP basics'' = ''Intro to SQL''"
    by code_simp
  have s: "stable (Some ''  Intro to SQL - YouTube '') ''https://www.youtube.com/watch?v=abc12345678''
       ''HTTP basics''"
    by code_simp
  have n: "\<not> stable (Some ''Intro - YouTube - YouTube'') ''https://example.com/a'' ''SQL''"
    "\<not> stable None ''https://vimeo.com/1'' ''https://a.example''"
    by code_simp+
  show ?thesis
    using c s n cleanTitle_idempotent_iff_stable [of "Some ''  Intro to SQL - YouTube ''"
        "''https://www.youtube.com/watch?v=abc12345678''" "''HTTP basics''"]
    by simp
qed

section \<open>Retry with backoff\<close>

lemma retry_returns: "fn s = (Inr v, s') \<Longrightarrow> retryWithBackoff fn retries delay s = (Inr v, [], s')"
  by (simp add: retryWithBackoff.simps)

lemma retry_rethrows:
  "fn s = (Inl e, s') \<Longrightarrow> \<not> (retries > 0 \<and> rate_limited e) \<Longrightarrow>
   retryWithBackoff fn retries delay s = (Inl e, [], s')"
  by (subst retryWithBackoff.simps) auto

lemma retry_again:
  "fn s = (Inl e, s') \<Longrightarrow> retries > 0 \<Longrightarrow> rate_limited e \<Longrightarrow>
   retryWithBackoff fn (retries - 1) (delay * 2) s' = (r, waits, s'') \<Longrightarrow>
   retryWithBackoff fn retries delay s = (r, delay # waits, s'')"
  by (simp add: retryWithBackoff.simps)

text \<open>
  C4. With the defaults, an operation that throws two rate-limit errors and then returns
  is called three times, the waits are 2000 ms then 4000 ms, and its value is returned;
  an error that is not a rate-limit error is rethrown at once, whatever the budget,
  with no wait and no further call; with no budget left (or after four rate-limit
  errors under the defaults, the waits being 2000, 4000 and 8000 ms) the error of the
  last call is rethrown as it was thrown.
\<close>

theorem retryWithBackoff_policy:
  "(fn s0 = (Inl e1, s1) \<and> rate_limited e1 \<and> fn s1 = (Inl e2, s2) \<and> rate_limited e2
      \<and> fn s2 = (Inr v, s3)
     \<longrightarrow> retryWithBackoff_default fn s0 = (Inr v, [2000, 4000], s3))
   \<and> (fn s0 = (Inl e, s1) \<and> \<not> rate_limited e
     \<longrightarrow> retryWithBackoff fn retries delay s0 = (Inl e, [], s1))
   \<and> (fn s0 = (Inl e, s1) \<and> retries \<le> 0
     \<longrightarrow> retryWithBackoff fn retries delay s0 = (Inl e, [], s1))
   \<and> (fn s0 = (Inl e1, s1) \<and> rate_limited e1 \<and> fn s1 = (Inl e2, s2) \<and> rate_limited e2
      \<and> fn s2 = (Inl e3, s3) \<and> rate_limited e3 \<and> fn s3 = (Inl e4, s4)
     \<longrightarrow> retryWithBackoff_default fn s0 = (Inl e4, [2000, 4000, 8000], s4))"
proof (intro conjI impI)
  assume a: "fn s0 = (Inl e1, s1) \<and> rate_limited e1 \<and> fn s1 = (Inl e2, s2) \<and> rate_limited e2
      \<and> fn s2 = (Inr v, s3)"
  have "retryWithBackoff fn 1 8000 s2 = (Inr v, [], s3)"
    using a by (simp add: retry_returns)
  then have "retryWithBackoff fn 2 4000 s1 = (Inr v, [4000], s3)"
    using a retry_again [of fn s1 e2 s2 2 4000] by simp
  then have "retryWithBackoff fn 3 2000 s0 = (Inr v, [2000, 4000], s3)"
    using a retry_again [of fn s0 e1 s1 3 2000] by simp
  then show "retryWithBackoff_default fn s0 = (Inr v, [2000, 4000], s3)"
    by (simp add: retryWithBackoff_default_def)
next
  assume "fn s0 = (Inl e, s1) \<and> \<not> rate_limited e"
  then show "retryWithBackoff fn retries delay s0 = (Inl e, [], s1)"
    by (simp add: retry_rethrows)
next
  assume "fn s0 = (Inl e, s1) \<and> retries \<le> 0"
  then show "retryWithBackoff fn retries delay s0 = (Inl e, [], s1)"
    by (simp add: retry_rethrows)
next
  assume a: "fn s0 = (Inl e1, s1) \<and> rate_limited e1 \<and> fn s1 = (Inl e2, s2) \<and> rate_limited e2
      \<and> fn s2 = (Inl e3, s3) \<and> rate_limited e3 \<and> fn s3 = (Inl e4, s4)"
  have "retryWithBackoff fn 0 16000 s3 = (Inl e4, [], s4)"
    using a by (simp add: retry_rethrows)
  then have "retryWithBackoff fn 1 8000 s2 = (Inl e4, [8000], s4)"
    using a retry_again [of fn s2 e3 s3 1 8000] by simp
  then have "retryWithBackoff fn 2 4000 s1 = (Inl e4, [4000, 8000], s4)"
    using a retry_again [of fn s1 e2 s2 2 4000] by simp
  then have "retryWithBackoff fn 3 2000 s0 = (Inl e4, [2000, 4000, 8000], s4)"
    using a retry_again [of fn s0 e1 s1 3 2000] by simp
  then show "retryWithBackoff_default fn s0 = (Inl e4, [2000, 4000, 8000], s4)"
    by (simp add: retryWithBackoff_default_def)
qed

theorem retryWithBackoff_policy_witness:
  "retryWithBackoff_default (fails_first 2 (Thrown (Some (JNum 429)) None None) ''ok'') 0
     = (Inr ''ok'', [2000, 4000], 3)
   \<and> retryWithBackoff (fails_first 1 (Thrown (Some (JNum 500)) None (Some ''down'')) ''ok'') 3 2000 0
     = (Inl (Thrown (Some (JNum 500)) None (Some ''down'')), [], 1)
   \<and> retryWithBackoff (fails_first 1 (Thrown None None (Some ''got 429'')) ''ok'') 0 2000 0
     = (Inl (Thrown None None (Some ''got 429'')), [], 1)
   \<and> retryWithBackoff_default (fails_first 4 (Thrown (Some (JStr ''RESOURCE_EXHAUSTED'')) None None) ''ok'') 0
     = (Inl (Thrown (Some (JStr ''RESOURCE_EXHAUSTED'')) None None), [2000, 4000, 8000], 4)"
proof -
  let ?a = "Thrown (Some (JNum 429)) None None"
  let ?b = "Thrown (Some (JNum 500)) None (Some ''down'')"
  let ?c = "Thrown None None (Some ''got 429'')"
  let ?d = "Thrown (Some (JStr ''RESOURCE_EXHAUSTED'')) None None"
  have r: "rate_limited ?a" "\<not> rate_limited ?b" "rate_limited ?d"
    by (simp_all add: rate_limited_def startsWith_def)
  note p1 = retryWithBackoff_policy [of "fails_first 2 ?a ''ok''" 0 ?a 1 ?a 2 "''ok''" 3,
      THEN conjunct1]
  note p2 = retryWithBackoff_policy [of "fails_first 1 ?b ''ok''" 0 _ 1 _ _ _ _ ?b 3 2000,
      THEN conjunct2, THEN conjunct1]
  note p3 = retryWithBackoff_policy [of "fails_first 1 ?c ''ok''" 0 _ 1 _ _ _ _ ?c 0 2000,
      THEN conjunct2, THEN conjunct2, THEN conjunct1]
  note p4 = retryWithBackoff_policy [of "fails_first 4 ?d ''ok''" 0 ?d 1 ?d 2 _ 3 _ _ _
      ?d ?d 4, THEN conjunct2, THEN conjunct2, THEN conjunct2]
  show ?thesis
    using r p1 p2 p3 p4 by (simp add: fails_first_def)
qed

section \<open>The Curator Agent\<close>

lemma map_update_same:
  assumes "i < length xs \<Longrightarrow> f y = f (xs ! i)"
  shows "map f (xs[i := y]) = map f xs"
proof (rule nth_equalityI)
  show "length (map f (xs[i := y])) = length (map f xs)" by simp
next
  fix k assume "k < length (map f (xs[i := y]))"
  then have k: "k < length xs" by simp
  show "map f (xs[i := y]) ! k = map f xs ! k"
  proof (cases "k = i")
    case True
    then show ?thesis using k assms by simp
  next
    case False
    then show ?thesis using k by simp
  qed
qed

lemma link_of_description [simp]: "link_of (r\<lparr>resource_link.description := d\<rparr>) = link_of r"
  by (simp add: link_of_def)

lemma link_of_title [simp]: "link_of (r\<lparr>resource_link.title := t\<rparr>) = link_of r"
  by (simp add: link_of_def)

lemma enrich_item_links: "map link_of (fst (enrich_item h t item rs)) = map link_of rs"
  by (auto simp: enrich_item_def Let_def intro!: map_update_same
      split: option.splits json.splits prod.splits)

lemma enrich_all_links: "map link_of (enrich_all h t items rs) = map link_of rs"
proof (induction items arbitrary: rs)
  case Nil
  then show ?case by simp
next
  case (Cons item items)
  obtain rs' threw where e: "enrich_item h t item rs = (rs', threw)" by (cases "enrich_item h t item rs")
  then have "map link_of rs' = map link_of rs" using enrich_item_links [of h t item rs] by simp
  then show ?case using Cons e by (cases threw) simp_all
qed

lemma enrich_links: "map link_of (enrich h t txt rs) = map link_of rs"
  by (simp add: enrich_def enrich_all_links split: option.splits json.splits)

lemma to_resource_link: "to_resource h t c = Inr r \<Longrightarrow> link_of r = cited_link c"
  by (auto simp: to_resource_def link_of_def cited_link_def split: prod.splits option.splits)

lemma map_chunks_links: "map_chunks h t cs = Inr rs \<Longrightarrow> map link_of rs = map cited_link cs"
proof (induction cs arbitrary: rs)
  case Nil
  then show ?case by simp
next
  case (Cons c cs)
  then show ?case by (auto split: sum.splits dest: to_resource_link)
qed

lemma map_chunks_parsable: "(\<exists>rs. map_chunks h t cs = Inr rs) \<longleftrightarrow> parsable h cs"
proof (induction cs)
  case Nil
  then show ?case by (simp add: parsable_def)
next
  case (Cons c cs)
  then show ?case
    by (cases c) (auto simp: parsable_def to_resource_def split: sum.splits option.splits)
qed


lemma enrich_Nil: "enrich h t txt [] = []"
proof -
  have "map link_of (enrich h t txt []) = map link_of []" by (rule enrich_links)
  then show ?thesis by simp
qed

lemma enrich_length: "length (enrich h t txt rs) = length rs"
proof -
  have "map link_of (enrich h t txt rs) = map link_of rs" by (rule enrich_links)
  then show ?thesis by (metis length_map)
qed

lemma drop_roots_links:
  "map link_of (drop_roots rs) =
     (if length rs > 2 then filter (\<lambda>l. \<not> isRoot (fst l)) (map link_of rs) else map link_of rs)"
  by (simp add: drop_roots_def filter_map comp_def link_of_def)

lemma curated_thrown: "curated h t ctx (Inl e) = curation_failed h t"
  by (simp add: curated_def)

lemma curated_unparsable:
  assumes "\<not> parsable h (citations_of r)"
  shows "curated h t ctx (Inr r) = curation_failed h t"
proof -
  have "\<not> (\<exists>rs. map_chunks h t (citations_of r) = Inr rs)"
    using assms by (simp add: map_chunks_parsable)
  then obtain e where "map_chunks h t (citations_of r) = Inl e"
    by (cases "map_chunks h t (citations_of r)") auto
  then show ?thesis by (simp add: curated_def curate_def citations_of_def)
qed

lemma show_nat_2: "show_nat 2 = ''2''"
  by code_simp

lemma search_links_length: "search_links h t ctx = Inr ls \<Longrightarrow> length ls = 2"
  by (auto simp: search_links_def split: option.splits)

lemma curate_no_citation:
  assumes "citations_of r = []"
  shows "curate h t ctx r =
     (case search_links h t ctx of
        Inl e \<Rightarrow> Inl e
      | Inr ls \<Rightarrow> Inr \<lparr>summary = summary_for 2 t, resources = ls\<rparr>)"
proof (cases "search_links h t ctx")
  case (Inl e)
  then show ?thesis
    using assms by (simp add: curate_def citations_of_def [symmetric] enrich_Nil)
next
  case (Inr ls)
  then have "length ls = 2" by (rule search_links_length)
  then show ?thesis
    using assms Inr
    by (simp add: curate_def citations_of_def [symmetric] enrich_Nil drop_roots_def
        summary_for_def show_nat_2)
qed

lemma curated_no_citation:
  assumes "citations_of r = []"
  shows "curated h t ctx (Inr r) =
     (case search_links h t ctx of
        Inl e \<Rightarrow> curation_failed h t
      | Inr ls \<Rightarrow> Inr \<lparr>summary = summary_for 2 t, resources = ls\<rparr>)"
  by (simp add: curated_def curate_no_citation [OF assms] split: sum.splits)

lemma curate_grounded:
  assumes "parsable h (citations_of r)" "citations_of r \<noteq> []"
  shows "\<exists>c. curate h t ctx r = Inr c
    \<and> map link_of (resources c) = take 5 (surviving (citations_of r))
    \<and> summary c = summary_for (length (surviving (citations_of r))) t"
proof -
  let ?cs = "citations_of r"
  obtain rs where rs: "map_chunks h t ?cs = Inr rs"
    using assms(1) map_chunks_parsable by blast
  let ?en = "enrich h t (text' r) rs"
  have l: "map link_of ?en = map cited_link ?cs"
    using rs by (simp add: enrich_links map_chunks_links)
  then have len: "length ?en = length ?cs" by (metis length_map)
  then have ne: "length ?en \<noteq> 0" using assms(2) by simp
  have k: "map link_of (drop_roots ?en) = surviving ?cs"
    by (simp add: drop_roots_links surviving_def l len)
  then have kl: "length (drop_roots ?en) = length (surviving ?cs)" by (metis length_map)
  have c: "curate h t ctx r =
      Inr \<lparr>summary = summary_for (length (drop_roots ?en)) t, resources = take 5 (drop_roots ?en)\<rparr>"
    using rs ne by (simp add: curate_def citations_of_def [symmetric] Let_def summary_for_def)
  show ?thesis unfolding c using k kl by (simp add: take_map [symmetric])
qed

lemma curated_grounded:
  assumes "parsable h (citations_of r)" "citations_of r \<noteq> []"
  shows "\<exists>c. curated h t ctx (Inr r) = Inr c
    \<and> map link_of (resources c) = take 5 (surviving (citations_of r))
    \<and> summary c = summary_for (length (surviving (citations_of r))) t"
proof -
  obtain c where "curate h t ctx r = Inr c"
    "map link_of (resources c) = take 5 (surviving (citations_of r))"
    "summary c = summary_for (length (surviving (citations_of r))) t"
    using curate_grounded [OF assms] by blast
  then show ?thesis by (simp add: curated_def)
qed

lemma runCuratorAgent_curated:
  "fst (runCuratorAgent h generate t ctx s)
     = curated h t ctx (fst (retryWithBackoff_default generate s))"
  by (simp add: runCuratorAgent_def split: prod.splits)

lemma curation_failed_returns:
  "curation_failed h t = Inr c \<longleftrightarrow>
     (\<exists>q. encodeURIComponent h t = Some q
        \<and> c = \<lparr>summary = ''Could not curate specific resources due to an error.'',
                 resources =
                   [\<lparr>resource_link.title = ''Search '' @ dquote @ t @ dquote @ '' on Google'',
                     uri = ''https://www.google.com/search?q='' @ q,
                     source = Some ''google.com'',
                     thumbnail = None,
                     resource_link.description = Some (JStr ''Manual search fallback.'')\<rparr>]\<rparr>)"
  by (auto simp: curation_failed_def split: option.splits)

lemma curation_failed_throws:
  "curation_failed h t = Inl e \<longleftrightarrow>
     (encodeURIComponent h t = None \<and> e = URIError ''URI malformed'')"
  by (auto simp: curation_failed_def split: option.splits)

lemma curated_cases:
  "curated h t ctx outcome =
     (if caught h t ctx outcome then curation_failed h t
      else case outcome of Inl e \<Rightarrow> Inl e | Inr r \<Rightarrow> curate h t ctx r)"
  by (simp add: curated_def caught_def split: sum.splits)

lemma not_caught_returns:
  "\<not> caught h t ctx outcome \<Longrightarrow> \<exists>r c. outcome = Inr r \<and> curate h t ctx r = Inr c"
  by (auto simp: caught_def split: sum.splits)

lemma caught_iff:
  "caught h t ctx (Inr r) \<longleftrightarrow>
     (\<not> parsable h (citations_of r)
      \<or> (citations_of r = [] \<and> (\<exists>e. search_links h t ctx = Inl e)))"
proof (cases "parsable h (citations_of r)")
  case False
  then have "\<not> (\<exists>rs. map_chunks h t (citations_of r) = Inr rs)"
    by (simp add: map_chunks_parsable)
  then obtain e where "map_chunks h t (citations_of r) = Inl e"
    by (cases "map_chunks h t (citations_of r)") auto
  then show ?thesis using False by (simp add: caught_def curate_def citations_of_def)
next
  case True
  show ?thesis
  proof (cases "citations_of r = []")
    case e: True
    show ?thesis using True e by (simp add: caught_def curate_no_citation split: sum.splits)
  next
    case False
    then obtain c where "curate h t ctx r = Inr c" using curate_grounded [OF True] by blast
    then show ?thesis using True False by (simp add: caught_def)
  qed
qed

lemma search_links_throws:
  "(\<exists>e. search_links h t ctx = Inl e) \<longleftrightarrow>
     (encodeURIComponent h (t @ '' '' @ ctx @ '' tutorial'') = None
      \<or> encodeURIComponent h (t @ '' tutorial'') = None)"
  by (auto simp: search_links_def split: option.splits)

lemma resources_at_most_five:
  assumes "curated h t ctx outcome = Inr c"
  shows "length (resources c) \<le> 5"
proof (cases "caught h t ctx outcome")
  case True
  then have "curation_failed h t = Inr c" using assms by (simp add: curated_cases)
  then show ?thesis by (auto simp: curation_failed_returns)
next
  case False
  then obtain r where "outcome = Inr r" "curate h t ctx r = Inr c"
    using assms not_caught_returns [OF False] by (auto simp: curated_cases)
  then show ?thesis
    by (auto simp: curate_def Let_def split: sum.splits if_splits)
qed

lemma remove_slash_Cons: "remove_at_end ''/'' (a # b # s) = a # remove_at_end ''/'' (b # s)"
  by (simp add: remove_at_end_def endsWith_def)

lemma normalizeUrl_google:
  "\<exists>rest. normalizeUrl (''https://www.google.com/search?q='' @ q) = CHR ''g'' # rest"
  by (simp add: normalizeUrl_def strip_scheme_def strip_www_def startsWith_def remove_slash_Cons)

lemma normalizeUrl_youtube_results:
  "\<exists>rest. normalizeUrl (''https://www.youtube.com/results?search_query='' @ q) = CHR ''y'' # rest"
  by (simp add: normalizeUrl_def strip_scheme_def strip_www_def startsWith_def remove_slash_Cons)

lemma search_links_distinct:
  assumes "search_links h t ctx = Inr ls"
  shows "distinct (map (\<lambda>r. normalizeUrl (uri r)) ls)"
proof -
  obtain q qYt where ls: "ls =
      [\<lparr>resource_link.title = ''Search Google for '' @ dquote @ t @ dquote,
        uri = ''https://www.google.com/search?q='' @ q,
        source = Some ''google.com'',
        thumbnail = None,
        resource_link.description =
          Some (JStr ''No specific verified links found. Click to search manually.'')\<rparr>,
       \<lparr>resource_link.title = ''Search YouTube for '' @ dquote @ t @ dquote,
        uri = ''https://www.youtube.com/results?search_query='' @ qYt,
        source = Some ''youtube.com'',
        thumbnail = None,
        resource_link.description = Some (JStr ''Find video tutorials on YouTube.'')\<rparr>]"
    using assms by (auto simp: search_links_def split: option.splits)
  obtain a where a: "normalizeUrl (''https://www.google.com/search?q='' @ q) = CHR ''g'' # a"
    using normalizeUrl_google by blast
  obtain b where b: "normalizeUrl (''https://www.youtube.com/results?search_query='' @ qYt)
      = CHR ''y'' # b"
    using normalizeUrl_youtube_results by blast
  show ?thesis unfolding ls using a b by simp
qed

lemma uri_link_of: "uri r = fst (link_of r)"
  by (simp add: link_of_def)

lemma thumbnail_link_of: "thumbnail r = snd (link_of r)"
  by (simp add: link_of_def)

lemma map_fst_surviving:
  "map fst (surviving cs)
     = (if length cs > 2 then filter (\<lambda>v. \<not> isRoot v) (map fst cs) else map fst cs)"
  by (simp add: surviving_def filter_map comp_def cited_link_def)

lemma surviving_thumbnail: "l \<in> set (surviving cs) \<Longrightarrow> snd l = getYouTubeThumbnail (fst l)"
  by (auto simp: surviving_def cited_link_def split: if_splits)

lemma curated_grounded_uris:
  assumes "parsable h (citations_of r)" "citations_of r \<noteq> []"
  shows "\<exists>c. curated h t ctx (Inr r) = Inr c
    \<and> map uri (resources c) = take 5 (map fst (surviving (citations_of r)))"
proof -
  obtain c where c: "curated h t ctx (Inr r) = Inr c"
    "map link_of (resources c) = take 5 (surviving (citations_of r))"
    using curated_grounded [OF assms] by blast
  then have "map fst (map link_of (resources c)) = map fst (take 5 (surviving (citations_of r)))"
    by simp
  then have "map uri (resources c) = take 5 (map fst (surviving (citations_of r)))"
    by (simp add: comp_def link_of_def take_map)
  then show ?thesis using c(1) by blast
qed

lemma distinct_surviving:
  assumes "distinct (map (\<lambda>c. normalizeUrl (fst c)) cs)"
  shows "distinct (map normalizeUrl (take 5 (map fst (surviving cs))))"
proof -
  have d: "distinct (map normalizeUrl (map fst cs))" using assms by (simp add: comp_def)
  have "distinct (map normalizeUrl (map fst (surviving cs)))"
    unfolding map_fst_surviving using d by (simp add: distinct_map_filter)
  then show ?thesis by (simp add: take_map [symmetric] distinct_take)
qed


lemma thumbnail_without_youtube_host:
  "getYouTubeThumbnail ''https://example.com/dev/abcdefghijk''
     = Some ''https://img.youtube.com/vi/abcdefghijk/hqdefault.jpg''"
  by code_simp

lemma surviving_Nil_iff:
  "surviving cs = [] \<longleftrightarrow> cs = [] \<or> (2 < length cs \<and> list_all (\<lambda>c. isRoot (fst c)) cs)"
  by (auto simp: surviving_def filter_empty_conv list_all_iff cited_link_def)

lemma resources_empty_only_by_filter:
  assumes "curated h t ctx outcome = Inr c" "resources c = []"
  shows "\<exists>r. outcome = Inr r \<and> parsable h (citations_of r) \<and> 2 < length (citations_of r)
    \<and> list_all (\<lambda>c. isRoot (fst c)) (citations_of r)"
proof (cases outcome)
  case (Inl e)
  then have "curation_failed h t = Inr c" using assms(1) by (simp add: curated_thrown)
  then show ?thesis using assms(2) by (auto simp: curation_failed_returns)
next
  case (Inr r)
  have p: "parsable h (citations_of r)"
  proof (rule ccontr)
    assume "\<not> parsable h (citations_of r)"
    then have "curation_failed h t = Inr c" using assms(1) Inr by (simp add: curated_unparsable)
    then show False using assms(2) by (auto simp: curation_failed_returns)
  qed
  have ne: "citations_of r \<noteq> []"
  proof
    assume e: "citations_of r = []"
    show False
    proof (cases "search_links h t ctx")
      case (Inl x)
      then have "curation_failed h t = Inr c"
        using assms(1) Inr by (simp add: curated_no_citation [OF e])
      then show False using assms(2) by (auto simp: curation_failed_returns)
    next
      case ls: (Inr ls)
      then have "length ls = 2" by (rule search_links_length)
      moreover have "resources c = ls"
        using assms(1) Inr ls by (auto simp: curated_no_citation [OF e])
      ultimately show False using assms(2) by simp
    qed
  qed
  obtain c' where c': "curated h t ctx (Inr r) = Inr c'"
    "map link_of (resources c') = take 5 (surviving (citations_of r))"
    using curated_grounded [OF p ne] by blast
  then have "c' = c" using assms(1) Inr by simp
  then have "take 5 (surviving (citations_of r)) = []" using assms(2) c'(2) by simp
  then have "surviving (citations_of r) = []" by simp
  then show ?thesis using Inr p ne by (simp add: surviving_Nil_iff)
qed

lemma summary_counts_returned_up_to_five:
  assumes "parsable h (citations_of r)" "citations_of r \<noteq> []"
    "length (surviving (citations_of r)) \<le> 5"
  shows "\<exists>c. curated h t ctx (Inr r) = Inr c \<and> summary c = summary_for (length (resources c)) t"
proof -
  obtain c where c: "curated h t ctx (Inr r) = Inr c"
    "map link_of (resources c) = take 5 (surviving (citations_of r))"
    "summary c = summary_for (length (surviving (citations_of r))) t"
    using curated_grounded [OF assms(1,2)] by blast
  have "length (map link_of (resources c)) = length (take 5 (surviving (citations_of r)))"
    using c(2) by simp
  then have "length (resources c) = length (surviving (citations_of r))"
    using assms(3) by simp
  then show ?thesis using c by simp
qed

lemma runCuratorAgent_returns:
  assumes "encodeURIComponent h t = Some q"
  shows "\<exists>c. fst (runCuratorAgent h generate t ctx s) = Inr c"
proof (cases "caught h t ctx (fst (retryWithBackoff_default generate s))")
  case True
  then show ?thesis
    using assms by (simp add: runCuratorAgent_curated curated_cases curation_failed_def)
next
  case False
  then show ?thesis
    using not_caught_returns [OF False] by (auto simp: runCuratorAgent_curated curated_cases)
qed

lemma runCuratorAgent_fallback:
  assumes "fst (retryWithBackoff_default generate s) = Inl e" "encodeURIComponent h t = Some q"
  shows "fst (runCuratorAgent h generate t ctx s) =
     Inr \<lparr>summary = ''Could not curate specific resources due to an error.'',
          resources =
            [\<lparr>resource_link.title = ''Search '' @ dquote @ t @ dquote @ '' on Google'',
              uri = ''https://www.google.com/search?q='' @ q,
              source = Some ''google.com'',
              thumbnail = None,
              resource_link.description = Some (JStr ''Manual search fallback.'')\<rparr>]\<rparr>"
  using assms by (simp add: runCuratorAgent_curated curated_thrown curation_failed_def)

lemma runCuratorAgent_fallback_example:
  "fst (runCuratorAgent (example_host [])
      (fails_first 4 (Thrown (Some (JNum 429)) None None) (grounded_response five_pages None))
      ''SQL joins'' ''ctx'' 0)
     = Inr \<lparr>summary = ''Could not curate specific resources due to an error.'',
            resources =
              [\<lparr>resource_link.title = ''Search '' @ dquote @ ''SQL joins'' @ dquote @ '' on Google'',
                uri = ''https://www.google.com/search?q=SQL%20joins'',
                source = Some ''google.com'',
                thumbnail = None,
                resource_link.description = Some (JStr ''Manual search fallback.'')\<rparr>]\<rparr>"
  by code_simp

lemma startsWith_length: "startsWith s p \<Longrightarrow> length p \<le> length s"
proof -
  assume "startsWith s p"
  then have "length (take (length p) s) = length p" by (simp add: startsWith_def)
  then show ?thesis by simp
qed

lemma marker_length_le: "marker_length s = Some n \<Longrightarrow> n \<le> length s"
  unfolding marker_length_def
  by (auto split: if_splits dest: startsWith_length)

lemma after_marker_sound:
  "after_marker u = Some r \<Longrightarrow> \<exists>pre m. u = pre @ m @ r \<and> marker_length (m @ r) = Some (length m)"
proof (induction u)
  case Nil
  then show ?case by simp
next
  case (Cons c cs)
  show ?case
  proof (cases "\<not> line_terminator c \<and> after_marker cs \<noteq> None")
    case True
    then have "after_marker cs = Some r" using Cons.prems by auto
    then obtain pre m where "cs = pre @ m @ r" "marker_length (m @ r) = Some (length m)"
      using Cons.IH by blast
    then have "c # cs = (c # pre) @ m @ r \<and> marker_length (m @ r) = Some (length m)" by simp
    then show ?thesis by blast
  next
    case False
    then obtain n where n: "marker_length (c # cs) = Some n" "r = drop n (c # cs)"
      using Cons.prems by (auto split: option.splits if_splits)
    have "n \<le> length (c # cs)"
      using n(1) by (rule marker_length_le)
    then have "length (take n (c # cs)) = n" by simp
    then have "c # cs = [] @ take n (c # cs) @ r
        \<and> marker_length (take n (c # cs) @ r) = Some (length (take n (c # cs)))"
      using n by simp
    then show ?thesis by blast
  qed
qed

lemma match2_sound:
  assumes "match2 u = Some m"
  shows "\<exists>pre marker rest. u = pre @ marker @ m @ rest
    \<and> marker_length (marker @ m @ rest) = Some (length marker)
    \<and> list_all id_char m \<and> (rest = [] \<or> \<not> id_char (hd rest))"
proof -
  obtain r where r: "after_marker u = Some r" "m = takeWhile id_char r"
    using assms by (auto simp: match2_def)
  obtain pre marker where p: "u = pre @ marker @ r" "marker_length (marker @ r) = Some (length marker)"
    using after_marker_sound [OF r(1)] by blast
  let ?rest = "dropWhile id_char r"
  have "r = m @ ?rest" using r(2) by simp
  moreover have "list_all id_char m" using r(2) by (simp add: list_all_iff) (meson set_takeWhileD)
  moreover have "?rest = [] \<or> \<not> id_char (hd ?rest)" using hd_dropWhile by blast
  ultimately show ?thesis using p by metis
qed

lemma thumbnail_iff:
  "getYouTubeThumbnail u = Some th \<longleftrightarrow>
     (\<exists>m. match2 u = Some m \<and> length m = 11 \<and> th = ''https://img.youtube.com/vi/'' @ m @ ''/hqdefault.jpg'')"
proof (cases u)
  case Nil
  then show ?thesis by (simp add: getYouTubeThumbnail_def getYouTubeVideoId_def match2_def)
next
  case (Cons c cs)
  then show ?thesis
    by (cases "match2 u") (auto simp: getYouTubeThumbnail_def getYouTubeVideoId_def)
qed

lemma marker_at_Nil [simp]: "\<not> marker_at [] i"
  by (simp add: marker_at_def)

lemma marker_at_0: "marker_at (c # cs) 0 \<longleftrightarrow> marker_length (c # cs) \<noteq> None"
  by (simp add: marker_at_def)

lemma marker_at_Suc: "marker_at (c # cs) (Suc j) \<longleftrightarrow> \<not> line_terminator c \<and> marker_at cs j"
  by (auto simp: marker_at_def)

lemma after_marker_None: "after_marker u = None \<longleftrightarrow> (\<forall>i. \<not> marker_at u i)"
proof (induction u)
  case Nil
  show ?case by simp
next
  case (Cons c cs)
  have "(\<forall>i. \<not> marker_at (c # cs) i)
      \<longleftrightarrow> \<not> marker_at (c # cs) 0 \<and> (\<forall>j. \<not> marker_at (c # cs) (Suc j))"
    by (metis not0_implies_Suc)
  also have "\<dots> \<longleftrightarrow> marker_length (c # cs) = None \<and> (line_terminator c \<or> after_marker cs = None)"
    using Cons.IH by (auto simp: marker_at_0 marker_at_Suc)
  also have "\<dots> \<longleftrightarrow> after_marker (c # cs) = None"
    by (auto split: option.splits)
  finally show ?case by simp
qed

lemma after_marker_Some:
  "after_marker u = Some r \<Longrightarrow>
     \<exists>i n. marker_at u i \<and> (\<forall>j. marker_at u j \<longrightarrow> j \<le> i)
       \<and> marker_length (drop i u) = Some n \<and> r = drop (i + n) u"
proof (induction u)
  case Nil
  then show ?case by simp
next
  case (Cons c cs)
  show ?case
  proof (cases "\<not> line_terminator c \<and> after_marker cs \<noteq> None")
    case True
    then have "after_marker cs = Some r" using Cons.prems by auto
    then obtain i n where i: "marker_at cs i" "\<forall>j. marker_at cs j \<longrightarrow> j \<le> i"
      "marker_length (drop i cs) = Some n" "r = drop (i + n) cs"
      using Cons.IH by blast
    have "marker_at (c # cs) (Suc i)" using True i(1) by (simp add: marker_at_Suc)
    moreover have "\<forall>j. marker_at (c # cs) j \<longrightarrow> j \<le> Suc i"
    proof (intro allI impI)
      fix j assume m: "marker_at (c # cs) j"
      show "j \<le> Suc i"
      proof (cases j)
        case 0
        then show ?thesis by simp
      next
        case (Suc k)
        then have "marker_at cs k" using m by (simp add: marker_at_Suc)
        then show ?thesis using i(2) Suc by simp
      qed
    qed
    moreover have "marker_length (drop (Suc i) (c # cs)) = Some n" using i(3) by simp
    moreover have "r = drop (Suc i + n) (c # cs)" using i(4) by simp
    ultimately show ?thesis by blast
  next
    case False
    then obtain n where n: "marker_length (c # cs) = Some n" "r = drop n (c # cs)"
      using Cons.prems by (auto split: option.splits if_splits)
    have "marker_at (c # cs) 0" using n(1) by (simp add: marker_at_0)
    moreover have "\<forall>j. marker_at (c # cs) j \<longrightarrow> j \<le> 0"
    proof (intro allI impI)
      fix j assume m: "marker_at (c # cs) j"
      show "j \<le> 0"
      proof (cases j)
        case 0
        then show ?thesis by simp
      next
        case (Suc k)
        then have "\<not> line_terminator c" "marker_at cs k" using m by (simp_all add: marker_at_Suc)
        then have "after_marker cs \<noteq> None" using after_marker_None by blast
        then show ?thesis using False \<open>\<not> line_terminator c\<close> by simp
      qed
    qed
    moreover have "marker_length (drop 0 (c # cs)) = Some n" using n(1) by simp
    moreover have "r = drop (0 + n) (c # cs)" using n(2) by simp
    ultimately show ?thesis by blast
  qed
qed

lemma after_marker_iff:
  "after_marker u = Some r \<longleftrightarrow>
     (\<exists>i n. marker_at u i \<and> (\<forall>j. marker_at u j \<longrightarrow> j \<le> i)
        \<and> marker_length (drop i u) = Some n \<and> r = drop (i + n) u)"
proof
  assume "after_marker u = Some r"
  then show "\<exists>i n. marker_at u i \<and> (\<forall>j. marker_at u j \<longrightarrow> j \<le> i)
        \<and> marker_length (drop i u) = Some n \<and> r = drop (i + n) u"
    by (rule after_marker_Some)
next
  assume "\<exists>i n. marker_at u i \<and> (\<forall>j. marker_at u j \<longrightarrow> j \<le> i)
        \<and> marker_length (drop i u) = Some n \<and> r = drop (i + n) u"
  then obtain i n where i: "marker_at u i" "\<forall>j. marker_at u j \<longrightarrow> j \<le> i"
    "marker_length (drop i u) = Some n" "r = drop (i + n) u"
    by blast
  have "after_marker u \<noteq> None" using i(1) after_marker_None by blast
  then obtain r' where r': "after_marker u = Some r'" by auto
  then obtain i' n' where i': "marker_at u i'" "\<forall>j. marker_at u j \<longrightarrow> j \<le> i'"
    "marker_length (drop i' u) = Some n'" "r' = drop (i' + n') u"
    using after_marker_Some by blast
  have "i' = i" using i(1,2) i'(1,2) by (simp add: order_antisym)
  then have "n' = n" using i(3) i'(3) by simp
  then show "after_marker u = Some r" using r' i(4) i'(4) \<open>i' = i\<close> by simp
qed

lemma thumbnail_declarative:
  "getYouTubeThumbnail u = Some th \<longleftrightarrow>
     (\<exists>i n. marker_at u i \<and> (\<forall>j. marker_at u j \<longrightarrow> j \<le> i)
        \<and> marker_length (drop i u) = Some n
        \<and> length (takeWhile id_char (drop (i + n) u)) = 11
        \<and> th = ''https://img.youtube.com/vi/'' @ takeWhile id_char (drop (i + n) u)
               @ ''/hqdefault.jpg'')"
proof -
  have "getYouTubeThumbnail u = Some th \<longleftrightarrow>
      (\<exists>r. after_marker u = Some r \<and> length (takeWhile id_char r) = 11
         \<and> th = ''https://img.youtube.com/vi/'' @ takeWhile id_char r @ ''/hqdefault.jpg'')"
    unfolding thumbnail_iff match2_def by auto
  then show ?thesis unfolding after_marker_iff by blast
qed

lemma no_marker_no_thumbnail: "(\<forall>i. \<not> marker_at u i) \<Longrightarrow> getYouTubeThumbnail u = None"
proof -
  assume "\<forall>i. \<not> marker_at u i"
  then have "after_marker u = None" by (simp add: after_marker_None)
  then show ?thesis by (simp add: getYouTubeThumbnail_def getYouTubeVideoId_def match2_def)
qed

lemma watch_url_thumbnail: "getYouTubeThumbnail watch_url = Some watch_thumbnail"
  by code_simp

lemma vimeo_no_thumbnail: "getYouTubeThumbnail ''https://vimeo.com/123456789'' = None"
  by code_simp

lemma vimeo_channel_thumbnail:
  "getYouTubeThumbnail ''https://vimeo.com/channels/mtv/12345678901''
     = Some ''https://img.youtube.com/vi/12345678901/hqdefault.jpg''"
  by code_simp

text \<open>
  C1. The list a run returns has at most five entries, but it can be empty: step 3 adds
  the two search links only when no citation became a resource, and step 4 runs after
  it; three citations that are all bare homepages pass step 3 and are all removed by
  step 4.
\<close>

theorem curator_returns_no_resource:
  "runCuratorAgent (example_host []) (returns (grounded_response homepages None)) ''SQL'' ''ctx'' 0
     = (Inr \<lparr>summary = ''Here are 0 curated resources for SQL.'', resources = []\<rparr>, [], 1)"
  by code_simp

text \<open>
  C2. \<open>runCuratorAgent\<close> can throw: its \<open>catch\<close> block calls \<open>encodeURIComponent\<close> on the
  topic title, outside every \<open>try\<close>. The function throws exactly when the \<open>catch\<close> block
  runs (the wrapped generation call threw, or the \<open>try\<close> block did) and
  \<open>encodeURIComponent\<close> throws on the topic title, as it does when the title has a lone
  surrogate; what leaves the function is that \<open>URIError\<close>.
\<close>

theorem runCuratorAgent_throws_iff:
  "fst (runCuratorAgent h generate topicTitle context s) = Inl e \<longleftrightarrow>
     (caught h topicTitle context (fst (retryWithBackoff_default generate s))
      \<and> encodeURIComponent h topicTitle = None
      \<and> e = URIError ''URI malformed'')"
proof (cases "caught h topicTitle context (fst (retryWithBackoff_default generate s))")
  case True
  then show ?thesis
    by (simp add: runCuratorAgent_curated curated_cases curation_failed_throws)
next
  case False
  then show ?thesis
    using not_caught_returns [OF False] by (auto simp: runCuratorAgent_curated curated_cases)
qed

text \<open>
  C5, as stated: no two returned entries have URIs with the same normalized key. The
  agent has no step that removes duplicates: two citations of one page, written with
  different schemes, are both returned.
\<close>

theorem curator_keeps_duplicates:
  "(case fst (runCuratorAgent (example_host [])
      (returns (grounded_response
         [(''https://example.com/x'', ''X''), (''http://www.example.com/x/'', ''X again'')] None))
      ''SQL'' ''ctx'' 0) of
      Inl e \<Rightarrow> False
    | Inr c \<Rightarrow> map (\<lambda>r. normalizeUrl (uri r)) (resources c) = [''example.com/x'', ''example.com/x''])"
  by code_simp

text \<open>
  C5, amended. Whenever \<open>runCuratorAgent\<close> returns, the normalized URIs of the returned
  resources are pairwise different provided the wrapped call threw or the grounding
  citations of its response (the chunks with a non-empty URI and a non-empty title) have
  pairwise different normalized URIs. Nothing removes a duplicate: when the wrapped call
  returns a response with at least one such citation and \<open>new URL\<close> accepts every cited
  URI, the function returns, and the URIs of the returned resources are the cited URIs
  in grounding order, less the bare homepages when there are more than two citations,
  cut to the first five.
\<close>

theorem curator_keys_distinct_if_cited_distinct:
  "((case fst (retryWithBackoff_default generate s) of
       Inl e \<Rightarrow> True
     | Inr r \<Rightarrow> distinct (map (\<lambda>c. normalizeUrl (fst c)) (citations_of r))) \<longrightarrow>
    (\<forall>c. fst (runCuratorAgent h generate t ctx s) = Inr c \<longrightarrow>
       distinct (map (\<lambda>r. normalizeUrl (uri r)) (resources c))))
   \<and> (\<forall>r. fst (retryWithBackoff_default generate s) = Inr r
          \<and> parsable h (citations_of r) \<and> citations_of r \<noteq> [] \<longrightarrow>
        (\<exists>c. fst (runCuratorAgent h generate t ctx s) = Inr c
           \<and> map uri (resources c) = take 5 (map fst (surviving (citations_of r)))))"
proof (intro conjI impI allI)
  fix c
  assume d: "case fst (retryWithBackoff_default generate s) of
       Inl e \<Rightarrow> True
     | Inr r \<Rightarrow> distinct (map (\<lambda>c. normalizeUrl (fst c)) (citations_of r))"
  assume "fst (runCuratorAgent h generate t ctx s) = Inr c"
  then have c: "curated h t ctx (fst (retryWithBackoff_default generate s)) = Inr c"
    by (simp add: runCuratorAgent_curated)
  have failed: "distinct (map (\<lambda>r. normalizeUrl (uri r)) (resources c))"
    if "curation_failed h t = Inr c"
    using that by (auto simp: curation_failed_returns)
  show "distinct (map (\<lambda>r. normalizeUrl (uri r)) (resources c))"
  proof (cases "fst (retryWithBackoff_default generate s)")
    case (Inl e)
    then show ?thesis using c failed by (simp add: curated_thrown)
  next
    case (Inr r)
    consider "\<not> parsable h (citations_of r)" | "citations_of r = []"
      | "parsable h (citations_of r)" "citations_of r \<noteq> []" by blast
    then show ?thesis
    proof cases
      case 1
      then show ?thesis using c Inr failed by (simp add: curated_unparsable)
    next
      case 2
      show ?thesis
      proof (cases "search_links h t ctx")
        case (Inl x)
        then show ?thesis using c Inr failed by (simp add: curated_no_citation [OF 2])
      next
        case ls: (Inr ls)
        then have "resources c = ls" using c Inr by (auto simp: curated_no_citation [OF 2])
        then show ?thesis using search_links_distinct [OF ls] by simp
      qed
    next
      case 3
      obtain c' where c': "curated h t ctx (Inr r) = Inr c'"
        "map uri (resources c') = take 5 (map fst (surviving (citations_of r)))"
        using curated_grounded_uris [OF 3] by blast
      then have "c' = c" using c Inr by simp
      have "map (\<lambda>r. normalizeUrl (uri r)) (resources c)
          = map normalizeUrl (map uri (resources c))"
        by (simp add: comp_def)
      also have "\<dots> = map normalizeUrl (take 5 (map fst (surviving (citations_of r))))"
        using c'(2) \<open>c' = c\<close> by simp
      finally show ?thesis using distinct_surviving d Inr by simp
    qed
  qed
next
  fix r
  assume a: "fst (retryWithBackoff_default generate s) = Inr r
          \<and> parsable h (citations_of r) \<and> citations_of r \<noteq> []"
  then obtain c where "curated h t ctx (Inr r) = Inr c"
    "map uri (resources c) = take 5 (map fst (surviving (citations_of r)))"
    using curated_grounded_uris by blast
  then show "\<exists>c. fst (runCuratorAgent h generate t ctx s) = Inr c
           \<and> map uri (resources c) = take 5 (map fst (surviving (citations_of r)))"
    using a by (simp add: runCuratorAgent_curated)
qed

theorem curator_keys_distinct_if_cited_distinct_witness:
  "fst (retryWithBackoff_default (returns (grounded_response five_pages None)) 0)
     = Inr (grounded_response five_pages None)
   \<and> distinct (map (\<lambda>c. normalizeUrl (fst c)) (citations_of (grounded_response five_pages None)))
   \<and> parsable (example_host []) (citations_of (grounded_response five_pages None))
   \<and> citations_of (grounded_response five_pages None) \<noteq> []
   \<and> (\<exists>c. fst (runCuratorAgent (example_host []) (returns (grounded_response five_pages None))
              ''SQL'' ''ctx'' 0) = Inr c
          \<and> map uri (resources c) = map fst five_pages
          \<and> distinct (map (\<lambda>r. normalizeUrl (uri r)) (resources c)))"
proof -
  let ?r = "grounded_response five_pages None"
  have a: "fst (retryWithBackoff_default (returns ?r) 0) = Inr ?r"
    by code_simp
  have b: "distinct (map (\<lambda>c. normalizeUrl (fst c)) (citations_of ?r))"
    by code_simp
  have c: "parsable (example_host []) (citations_of ?r)" "citations_of ?r \<noteq> []"
    by code_simp+
  have d: "take 5 (map fst (surviving (citations_of ?r))) = map fst five_pages"
    by code_simp
  note th = curator_keys_distinct_if_cited_distinct [of "returns ?r" 0 "example_host []"
      "''SQL''" "''ctx''"]
  obtain x where x: "fst (runCuratorAgent (example_host []) (returns ?r) ''SQL'' ''ctx'' 0) = Inr x"
    "map uri (resources x) = take 5 (map fst (surviving (citations_of ?r)))"
    using th [THEN conjunct2, rule_format, of ?r] a c by blast
  have "distinct (map (\<lambda>r. normalizeUrl (uri r)) (resources x))"
    using th [THEN conjunct1, rule_format, of x] a b x(1) by simp
  then show ?thesis using a b c d x by auto
qed

text \<open>
  C8. The number in the summary is the length of the list before \<open>slice(0, 5)\<close>: with six
  citations the summary announces six resources and five are returned.
\<close>

theorem curator_summary_counts_before_slice:
  "(case fst (runCuratorAgent (example_host [])
      (returns (grounded_response (five_pages @ [(''https://a.example/6'', ''Six'')]) None))
      ''SQL'' ''ctx'' 0) of
      Inl e \<Rightarrow> False
    | Inr c \<Rightarrow> summary c = ''Here are 6 curated resources for SQL.'' \<and> length (resources c) = 5)"
  by code_simp

lemma to_resource_fields:
  "to_resource h t (u, raw) = Inr r \<Longrightarrow> uri r = u \<and> thumbnail r = getYouTubeThumbnail u"
  by (auto simp: to_resource_def split: option.splits)

lemma in_take_surviving:
  assumes "v \<in> set (take 5 (filter (\<lambda>v. \<not> isRoot v) (map fst cs)))" "2 < length cs"
  shows "(v, getYouTubeThumbnail v) \<in> set (take 5 (surviving cs))"
proof -
  have m: "map fst (take 5 (surviving cs)) = take 5 (filter (\<lambda>v. \<not> isRoot v) (map fst cs))"
    using assms(2) unfolding take_map [symmetric] map_fst_surviving by simp
  then have "v \<in> set (map fst (take 5 (surviving cs)))" using assms(1) by simp
  then obtain l where l: "l \<in> set (take 5 (surviving cs))" "fst l = v" by auto
  then have "l \<in> set (surviving cs)" by (meson in_set_takeD)
  then have "snd l = getYouTubeThumbnail (fst l)" by (rule surviving_thumbnail)
  then have "l = (v, getYouTubeThumbnail v)" using l(2) by (cases l) simp
  then show ?thesis using l(1) by simp
qed

lemma no_root_survives:
  assumes "2 < length cs" "l \<in> set (take 5 (surviving cs))"
  shows "\<not> isRoot (fst l)"
proof -
  have "l \<in> set (surviving cs)" using assms(2) by (meson in_set_takeD)
  then show ?thesis using assms(1) by (simp add: surviving_def)
qed

text \<open>
  C10, as stated: whenever the citations include the YouTube homepage and the watch URL
  among more than two results, the watch entry remains. The list is cut to five after
  the filter: with five citations before them, the homepage is filtered out and the
  watch entry is cut off.
\<close>

theorem watch_entry_cut_off:
  "(case fst (runCuratorAgent (example_host [])
      (returns (grounded_response
         (five_pages @ [(''https://www.youtube.com/'', ''YouTube''), (watch_url, ''Joins - YouTube'')]) None))
      ''SQL'' ''ctx'' 0) of
      Inl e \<Rightarrow> False
    | Inr c \<Rightarrow> map uri (resources c)
        = [''https://a.example/1'', ''https://a.example/2'', ''https://a.example/3'',
           ''https://a.example/4'', ''https://a.example/5''])"
  by code_simp

text \<open>
  C10, amended. A thumbnail is derived for a URI exactly when an alternative of the
  pattern's first group (\<open>youtu.be/\<close> with any character but a line terminator for the
  dot, \<open>v/\<close>, \<open>u/\<close> with a word character and \<open>/\<close>, \<open>embed/\<close>, \<open>watch?v=\<close>, \<open>&v=\<close>,
  \<open>shorts/\<close>) matches at a position with no line terminator before it, and the run of
  characters other than \<open>#\<close>, \<open>&\<close> and \<open>?\<close> after the last such match has exactly 11
  characters; the thumbnail is \<open>https://img.youtube.com/vi/{run}/hqdefault.jpg\<close>. The host
  is not looked at: \<open>https://vimeo.com/123456789\<close> has no thumbnail, and
  \<open>https://vimeo.com/channels/mtv/12345678901\<close> has one. The resource built from a citation
  carries the thumbnail of the citation's URI. When \<open>new URL\<close> accepts every cited URI and
  more than two citations carry a URI and a title, the \<open>try\<close> block returns, no returned
  resource is a bare homepage, and the entry of the watch URL is returned with its
  thumbnail provided the watch URL is among the first five cited URIs that are not bare
  homepages.
\<close>

theorem thumbnail_and_homepage_filter:
  "(getYouTubeThumbnail u = Some th \<longleftrightarrow>
      (\<exists>i n. marker_at u i \<and> (\<forall>j. marker_at u j \<longrightarrow> j \<le> i)
         \<and> marker_length (drop i u) = Some n
         \<and> length (takeWhile id_char (drop (i + n) u)) = 11
         \<and> th = ''https://img.youtube.com/vi/'' @ takeWhile id_char (drop (i + n) u)
                @ ''/hqdefault.jpg''))
   \<and> getYouTubeThumbnail ''https://vimeo.com/123456789'' = None
   \<and> getYouTubeThumbnail ''https://vimeo.com/channels/mtv/12345678901''
       = Some ''https://img.youtube.com/vi/12345678901/hqdefault.jpg''
   \<and> (to_resource h t (u, raw) = Inr r \<longrightarrow> uri r = u \<and> thumbnail r = getYouTubeThumbnail u)
   \<and> (parsable h (citations_of resp) \<and> 2 < length (citations_of resp) \<longrightarrow>
        (\<exists>c. curated h t ctx (Inr resp) = Inr c
           \<and> (\<forall>r \<in> set (resources c). \<not> isRoot (uri r))
           \<and> (watch_url \<in> set (take 5 (filter (\<lambda>v. \<not> isRoot v) (map fst (citations_of resp)))) \<longrightarrow>
                (\<exists>r \<in> set (resources c). uri r = watch_url \<and> thumbnail r = Some watch_thumbnail))))"
proof (intro conjI impI)
  show "getYouTubeThumbnail u = Some th \<longleftrightarrow>
      (\<exists>i n. marker_at u i \<and> (\<forall>j. marker_at u j \<longrightarrow> j \<le> i)
         \<and> marker_length (drop i u) = Some n
         \<and> length (takeWhile id_char (drop (i + n) u)) = 11
         \<and> th = ''https://img.youtube.com/vi/'' @ takeWhile id_char (drop (i + n) u)
                @ ''/hqdefault.jpg'')"
    by (rule thumbnail_declarative)
  show "getYouTubeThumbnail ''https://vimeo.com/123456789'' = None"
    by (rule vimeo_no_thumbnail)
  show "getYouTubeThumbnail ''https://vimeo.com/channels/mtv/12345678901''
       = Some ''https://img.youtube.com/vi/12345678901/hqdefault.jpg''"
    by (rule vimeo_channel_thumbnail)
next
  assume "to_resource h t (u, raw) = Inr r"
  then show "uri r = u" "thumbnail r = getYouTubeThumbnail u"
    using to_resource_fields by blast+
next
  assume a: "parsable h (citations_of resp) \<and> 2 < length (citations_of resp)"
  let ?cs = "citations_of resp"
  have ne: "?cs \<noteq> []" using a by auto
  obtain c where c: "curated h t ctx (Inr resp) = Inr c"
    and links: "map link_of (resources c) = take 5 (surviving ?cs)"
    using curated_grounded [of h resp t ctx] a ne by blast
  let ?rs = "resources c"
  have roots: "\<forall>r \<in> set ?rs. \<not> isRoot (uri r)"
  proof
    fix r assume "r \<in> set ?rs"
    then have "link_of r \<in> set (map link_of ?rs)" by simp
    then have "link_of r \<in> set (take 5 (surviving ?cs))" using links by simp
    then have "\<not> isRoot (fst (link_of r))" using no_root_survives a by blast
    then show "\<not> isRoot (uri r)" by (simp add: link_of_def)
  qed
  have watch: "\<exists>r \<in> set ?rs. uri r = watch_url \<and> thumbnail r = Some watch_thumbnail"
    if "watch_url \<in> set (take 5 (filter (\<lambda>v. \<not> isRoot v) (map fst ?cs)))"
  proof -
    have "(watch_url, getYouTubeThumbnail watch_url) \<in> set (take 5 (surviving ?cs))"
      using that in_take_surviving a by blast
    then have "(watch_url, Some watch_thumbnail) \<in> set (map link_of ?rs)"
      using links by (simp add: watch_url_thumbnail)
    then obtain r where "r \<in> set ?rs" "link_of r = (watch_url, Some watch_thumbnail)" by auto
    then show ?thesis by (auto simp: link_of_def)
  qed
  show "\<exists>c. curated h t ctx (Inr resp) = Inr c
           \<and> (\<forall>r \<in> set (resources c). \<not> isRoot (uri r))
           \<and> (watch_url \<in> set (take 5 (filter (\<lambda>v. \<not> isRoot v) (map fst (citations_of resp)))) \<longrightarrow>
                (\<exists>r \<in> set (resources c). uri r = watch_url \<and> thumbnail r = Some watch_thumbnail))"
    using c roots watch by blast
qed

theorem thumbnail_and_homepage_filter_witness:
  "parsable (example_host []) (citations_of (grounded_response
         [(''https://www.youtube.com/'', ''YouTube''), (watch_url, ''Joins - YouTube''),
          (''https://a.example/1'', ''One'')] None))
   \<and> 2 < length (citations_of (grounded_response
         [(''https://www.youtube.com/'', ''YouTube''), (watch_url, ''Joins - YouTube''),
          (''https://a.example/1'', ''One'')] None))
   \<and> (\<exists>c. curated (example_host []) ''SQL'' ''ctx'' (Inr (grounded_response
         [(''https://www.youtube.com/'', ''YouTube''), (watch_url, ''Joins - YouTube''),
          (''https://a.example/1'', ''One'')] None)) = Inr c
        \<and> list_all (\<lambda>r. \<not> isRoot (uri r)) (resources c)
        \<and> (\<exists>r \<in> set (resources c). uri r = watch_url \<and> thumbnail r = Some watch_thumbnail))
   \<and> marker_at watch_url 24
   \<and> marker_length (drop 24 watch_url) = Some 8
   \<and> takeWhile id_char (drop 32 watch_url) = ''abc12345678''
   \<and> getYouTubeThumbnail watch_url = Some watch_thumbnail"
proof -
  let ?resp = "grounded_response
         [(''https://www.youtube.com/'', ''YouTube''), (watch_url, ''Joins - YouTube''),
          (''https://a.example/1'', ''One'')] None"
  have a: "parsable (example_host []) (citations_of ?resp) \<and> 2 < length (citations_of ?resp)"
    by code_simp
  have b: "watch_url \<in> set (take 5 (filter (\<lambda>v. \<not> isRoot v) (map fst (citations_of ?resp))))"
    by code_simp
  have m: "marker_at watch_url 24" "marker_length (drop 24 watch_url) = Some 8"
    "takeWhile id_char (drop 32 watch_url) = ''abc12345678''"
    by code_simp+
  have last: "\<forall>j. marker_at watch_url j \<longrightarrow> j \<le> 24"
  proof (intro allI impI)
    fix j assume j: "marker_at watch_url j"
    then have "j \<in> set [0..<length watch_url]" by (simp add: marker_at_def)
    moreover have "list_all (\<lambda>j. marker_at watch_url j \<longrightarrow> j \<le> 24) [0..<length watch_url]"
      by code_simp
    ultimately show "j \<le> 24" using j by (simp add: list_all_iff)
  qed
  have w: "watch_thumbnail = ''https://img.youtube.com/vi/''
      @ takeWhile id_char (drop (24 + 8) watch_url) @ ''/hqdefault.jpg''"
    "length (takeWhile id_char (drop (24 + 8) watch_url)) = 11"
    by code_simp+
  have g: "getYouTubeThumbnail watch_url = Some watch_thumbnail"
    using thumbnail_and_homepage_filter [of watch_url watch_thumbnail, THEN conjunct1, THEN iffD2]
      m(1,2) last w by blast
  note th = thumbnail_and_homepage_filter [of _ _ "example_host []" "''SQL''" _ _ ?resp "''ctx''",
      THEN conjunct2, THEN conjunct2, THEN conjunct2, THEN conjunct2, rule_format, OF a]
  show ?thesis using a b m g th by (auto simp: list_all_iff)
qed


section \<open>The Planner Agent\<close>

lemma process_module_returns: "(\<exists>pm. process_module i m = Inr pm) \<longleftrightarrow> has_topics m"
  by (auto simp: process_module_def has_topics_def split: option.splits json.splits)

lemma process_modules_returns:
  "(\<exists>pms. process_modules i ms = Inr pms) \<longleftrightarrow> list_all has_topics ms"
proof (induction ms arbitrary: i)
  case Nil
  then show ?case by simp
next
  case (Cons m ms)
  show ?case
  proof (cases "process_module i m")
    case (Inl e)
    then have "\<not> has_topics m" using process_module_returns [of i m] by simp
    then show ?thesis using Inl by simp
  next
    case (Inr pm)
    then have "has_topics m" using process_module_returns [of i m] by blast
    then show ?thesis
      using Inr Cons.IH [of "Suc i"] by (cases "process_modules (Suc i) ms") auto
  qed
qed

lemma map_of_put: "map_of (put k v kvs) k' = (if k' = k then Some v else map_of kvs k')"
  by (induction kvs) auto

lemma member_modules_object:
  "member data ''modules'' = Some v \<Longrightarrow> \<exists>kvs. data = JObj kvs"
  by (cases data) auto

lemma planned_returns_iff:
  "(\<exists>c. planned h uuid now outcome = Inr c) \<longleftrightarrow>
     (\<exists>r t data. outcome = Inr r \<and> text' r = Some t \<and> t \<noteq> []
        \<and> JSON_parse h (trim (remove_fences t)) = Some data \<and> well_shaped data)"
proof (cases outcome)
  case (Inl e)
  then show ?thesis by (simp add: planned_def)
next
  case (Inr r)
  show ?thesis
  proof (cases "text' r")
    case None
    then show ?thesis using Inr by (simp add: planned_def)
  next
    case (Some t)
    show ?thesis
    proof (cases "t = []")
      case True
      then show ?thesis using Inr Some by (simp add: planned_def)
    next
      case False
      show ?thesis
      proof (cases "JSON_parse h (trim (remove_fences t))")
        case None
        then show ?thesis using Inr Some False by (simp add: planned_def)
      next
        case (Some data)
        note parsed = Some
        show ?thesis
        proof (cases "\<exists>mods. member data ''modules'' = Some (JArr mods)")
          case True
          then obtain mods where mods: "member data ''modules'' = Some (JArr mods)" by blast
          have "(\<exists>pms. process_modules 0 mods = Inr pms) \<longleftrightarrow> list_all has_topics mods"
            by (rule process_modules_returns)
          then show ?thesis
            using Inr \<open>text' r = Some t\<close> False parsed mods
            by (cases "process_modules 0 mods") (auto simp: planned_def well_shaped_def)
        next
          case no: False
          then have "\<not> well_shaped data"
            by (auto simp: well_shaped_def split: option.splits json.splits)
          moreover have "\<exists>e. planned h uuid now outcome = Inl e"
            using Inr \<open>text' r = Some t\<close> False parsed no
            by (auto simp: planned_def split: option.splits json.splits)
          ultimately show ?thesis using Inr \<open>text' r = Some t\<close> parsed by auto
        qed
      qed
    qed
  qed
qed

lemma process_module_members:
  assumes "process_module i m = Inr pm"
  shows "\<exists>tops. member m ''topics'' = Some (JArr tops)
    \<and> (\<forall>k. member pm k =
          (if k = ''topics'' then Some (JArr (map (\<lambda>(j, tp). with_id i j tp) (indexed tops)))
           else member m k))"
proof -
  obtain tops where tops: "member m ''topics'' = Some (JArr tops)"
    using assms by (auto simp: process_module_def split: option.splits json.splits)
  then obtain kvs where kvs: "m = JObj kvs" by (cases m) auto
  have "pm = JObj (put ''topics'' (JArr (map (\<lambda>(j, tp). with_id i j tp) (indexed tops))) kvs)"
    using assms tops kvs by (simp add: process_module_def)
  then have "\<forall>k. member pm k =
          (if k = ''topics'' then Some (JArr (map (\<lambda>(j, tp). with_id i j tp) (indexed tops)))
           else member m k)"
    using kvs by (simp add: map_of_put)
  then show ?thesis using tops by blast
qed

lemma process_modules_nth:
  "process_modules i ms = Inr pms \<Longrightarrow>
     length pms = length ms \<and> (\<forall>k < length ms. process_module (i + k) (ms ! k) = Inr (pms ! k))"
proof (induction ms arbitrary: i pms)
  case Nil
  then show ?case by simp
next
  case (Cons m ms)
  obtain pm where pm: "process_module i m = Inr pm"
    using Cons.prems by (cases "process_module i m") auto
  obtain rest where rest: "process_modules (Suc i) ms = Inr rest"
    using Cons.prems pm by (cases "process_modules (Suc i) ms") auto
  have pms: "pms = pm # rest" using Cons.prems pm rest by simp
  have ih: "length rest = length ms"
    "\<forall>k < length ms. process_module (Suc i + k) (ms ! k) = Inr (rest ! k)"
    using Cons.IH [OF rest] by blast+
  have "\<forall>k < length (m # ms). process_module (i + k) ((m # ms) ! k) = Inr (pms ! k)"
  proof (intro allI impI)
    fix k assume k: "k < length (m # ms)"
    show "process_module (i + k) ((m # ms) ! k) = Inr (pms ! k)"
    proof (cases k)
      case 0
      then show ?thesis using pm pms by simp
    next
      case (Suc j)
      then have "j < length ms" using k by simp
      then have "process_module (Suc i + j) (ms ! j) = Inr (rest ! j)" using ih(2) by blast
      then show ?thesis using Suc pms by simp
    qed
  qed
  then show ?case using ih(1) pms by simp
qed

lemma with_id_members:
  "member (with_id i j tp) k =
     (if k = ''id'' then Some (JStr (''m'' @ show_nat i @ ''-t'' @ show_nat j))
      else map_of (spread tp) k)"
  by (simp add: with_id_def map_of_put)

lemma planned_content:
  assumes "planned h uuid now (Inr r) = Inr c" "text' r = Some t"
    "JSON_parse h (trim (remove_fences t)) = Some data"
  shows "\<exists>mods pms. member data ''modules'' = Some (JArr mods) \<and> length pms = length mods
    \<and> (\<forall>k. member c k =
          (if k = ''modules'' then Some (JArr pms)
           else if k = ''createdAt'' then Some (JNum now)
           else if k = ''id'' then Some (JStr uuid)
           else member data k))
    \<and> (\<forall>i < length mods. \<exists>tops. member (mods ! i) ''topics'' = Some (JArr tops)
          \<and> (\<forall>k. member (pms ! i) k =
                (if k = ''topics'' then Some (JArr (map (\<lambda>(j, tp). with_id i j tp) (indexed tops)))
                 else member (mods ! i) k)))"
proof -
  have ne: "t \<noteq> []" using assms by (auto simp: planned_def)
  obtain mods where mods: "member data ''modules'' = Some (JArr mods)"
    using assms ne by (auto simp: planned_def split: option.splits json.splits)
  then obtain kvs where kvs: "data = JObj kvs" using member_modules_object by blast
  obtain pms where pms: "process_modules 0 mods = Inr pms"
    using assms ne mods by (auto simp: planned_def split: sum.splits)
  then have "c = JObj (put ''modules'' (JArr pms) (put ''createdAt'' (JNum now)
      (put ''id'' (JStr uuid) kvs)))"
    using assms ne mods kvs by (simp add: planned_def)
  then have m: "\<forall>k. member c k =
          (if k = ''modules'' then Some (JArr pms)
           else if k = ''createdAt'' then Some (JNum now)
           else if k = ''id'' then Some (JStr uuid)
           else member data k)"
    using kvs by (simp add: map_of_put)
  have n: "length pms = length mods"
    "\<forall>k < length mods. process_module (0 + k) (mods ! k) = Inr (pms ! k)"
    using process_modules_nth [OF pms] by blast+
  have "\<forall>i < length mods. \<exists>tops. member (mods ! i) ''topics'' = Some (JArr tops)
          \<and> (\<forall>k. member (pms ! i) k =
                (if k = ''topics'' then Some (JArr (map (\<lambda>(j, tp). with_id i j tp) (indexed tops)))
                 else member (mods ! i) k))"
  proof (intro allI impI)
    fix i assume "i < length mods"
    then have "process_module i (mods ! i) = Inr (pms ! i)" using n(2) by simp
    then show "\<exists>tops. member (mods ! i) ''topics'' = Some (JArr tops)
          \<and> (\<forall>k. member (pms ! i) k =
                (if k = ''topics'' then Some (JArr (map (\<lambda>(j, tp). with_id i j tp) (indexed tops)))
                 else member (mods ! i) k))"
      by (rule process_module_members)
  qed
  then show ?thesis using mods n(1) m by blast
qed

lemma runPlannerAgent_planned:
  "fst (runPlannerAgent h uuid now generate s)
     = planned h uuid now (fst (retryWithBackoff_default generate s))"
  by (simp add: runPlannerAgent_def split: prod.splits)

text \<open>
  C3, as stated: an error is surfaced whenever a field that the planner schema requires
  is absent. The code reads \<open>modules\<close> and each module's \<open>topics\<close> and nothing else: a
  plan without title and description, whose module has no title and whose topic has
  only a title, is returned as a curriculum.
\<close>

theorem planner_accepts_missing_fields:
  "JSON_parse plan_host (trim (remove_fences (fence @ ''json'' @ sparse_text @ fence))) = Some sparse_plan
   \<and> \<not> schema_complete sparse_plan
   \<and> fst (runPlannerAgent plan_host ''uuid-1'' 1700000000000
        (returns (text_response (fence @ ''json'' @ sparse_text @ fence))) 0)
     = Inr (JObj [(''modules'', JArr [JObj [(''topics'',
         JArr [JObj [(''title'', JStr ''Joins''), (''id'', JStr ''m0-t0'')]])]]),
         (''id'', JStr ''uuid-1''), (''createdAt'', JNum 1700000000000)])"
  by code_simp


text \<open>
  C3, amended: \<open>runPlannerAgent\<close> surfaces an error exactly when the wrapped generation
  call throws, or the response has no text (none, or the empty string), or the trimmed,
  fence-stripped text is not valid JSON, or the parsed value has no array \<open>modules\<close>, or
  some element of \<open>modules\<close> has no array \<open>topics\<close>. In every other case it returns an
  object with the members of the parsed object, except that \<open>id\<close> is the new identifier,
  \<open>createdAt\<close> the time stamp and \<open>modules\<close> the array of the processed modules; a
  processed module has the members of the parsed module, except that \<open>topics\<close> is the
  array of its topics, each copied with the member \<open>id\<close> set to \<open>m{i}-t{j}\<close>. No other
  member is added or looked at: what was absent in the parsed value is absent in the
  result.
\<close>

theorem planner_error_iff:
  assumes "outcome = fst (retryWithBackoff_default generate s)"
  shows "((\<exists>e. fst (runPlannerAgent h uuid now generate s) = Inl e) \<longleftrightarrow>
      (case outcome of
         Inl e \<Rightarrow> True
       | Inr r \<Rightarrow>
           (case text' r of
              None \<Rightarrow> True
            | Some t \<Rightarrow> t = [] \<or>
                (case JSON_parse h (trim (remove_fences t)) of
                   None \<Rightarrow> True
                 | Some data \<Rightarrow> \<not> well_shaped data))))
    \<and> (outcome = Inr r \<and> text' r = Some t \<and> JSON_parse h (trim (remove_fences t)) = Some data
         \<and> fst (runPlannerAgent h uuid now generate s) = Inr c \<longrightarrow>
        (\<exists>mods pms. member data ''modules'' = Some (JArr mods) \<and> length pms = length mods
           \<and> (\<forall>k. member c k =
                 (if k = ''modules'' then Some (JArr pms)
                  else if k = ''createdAt'' then Some (JNum now)
                  else if k = ''id'' then Some (JStr uuid)
                  else member data k))
           \<and> (\<forall>i < length mods. \<exists>tops. member (mods ! i) ''topics'' = Some (JArr tops)
                 \<and> (\<forall>k. member (pms ! i) k =
                       (if k = ''topics''
                        then Some (JArr (map (\<lambda>(j, tp). with_id i j tp) (indexed tops)))
                        else member (mods ! i) k)))))
    \<and> (\<forall>i j tp k. member (with_id i j tp) k =
          (if k = ''id'' then Some (JStr (''m'' @ show_nat i @ ''-t'' @ show_nat j))
           else map_of (spread tp) k))"
proof (intro conjI impI)
  have p: "fst (runPlannerAgent h uuid now generate s) = planned h uuid now outcome"
    using assms by (simp add: runPlannerAgent_planned)
  have "(\<exists>e. planned h uuid now outcome = Inl e) \<longleftrightarrow> \<not> (\<exists>c. planned h uuid now outcome = Inr c)"
    by (cases "planned h uuid now outcome") auto
  then show "(\<exists>e. fst (runPlannerAgent h uuid now generate s) = Inl e) \<longleftrightarrow>
      (case outcome of
         Inl e \<Rightarrow> True
       | Inr r \<Rightarrow>
           (case text' r of
              None \<Rightarrow> True
            | Some t \<Rightarrow> t = [] \<or>
                (case JSON_parse h (trim (remove_fences t)) of
                   None \<Rightarrow> True
                 | Some data \<Rightarrow> \<not> well_shaped data)))"
    unfolding p planned_returns_iff by (auto split: sum.splits option.splits)
  show "\<forall>i j tp k. member (with_id i j tp) k =
          (if k = ''id'' then Some (JStr (''m'' @ show_nat i @ ''-t'' @ show_nat j))
           else map_of (spread tp) k)"
    by (simp only: with_id_members) simp
  assume a: "outcome = Inr r \<and> text' r = Some t \<and> JSON_parse h (trim (remove_fences t)) = Some data
         \<and> fst (runPlannerAgent h uuid now generate s) = Inr c"
  have "planned h uuid now (Inr r) = Inr c"
  proof -
    have o: "outcome = Inr r" using a by blast
    have f: "fst (runPlannerAgent h uuid now generate s) = Inr c" using a by blast
    have "planned h uuid now outcome = Inr c" using f p by simp
    then show ?thesis unfolding o .
  qed
  moreover have "text' r = Some t" "JSON_parse h (trim (remove_fences t)) = Some data"
    using a by blast+
  ultimately show "\<exists>mods pms. member data ''modules'' = Some (JArr mods) \<and> length pms = length mods
           \<and> (\<forall>k. member c k =
                 (if k = ''modules'' then Some (JArr pms)
                  else if k = ''createdAt'' then Some (JNum now)
                  else if k = ''id'' then Some (JStr uuid)
                  else member data k))
           \<and> (\<forall>i < length mods. \<exists>tops. member (mods ! i) ''topics'' = Some (JArr tops)
                 \<and> (\<forall>k. member (pms ! i) k =
                       (if k = ''topics''
                        then Some (JArr (map (\<lambda>(j, tp). with_id i j tp) (indexed tops)))
                        else member (mods ! i) k)))"
    by (rule planned_content)
qed

theorem planner_error_iff_witness:
  "fst (runPlannerAgent plan_host ''uuid-1'' 1700000000000 (returns (text_response full_text)) 0)
     = Inr (JObj [(''title'', JStr ''SQL''), (''description'', JStr ''Basics''),
         (''modules'', JArr [JObj [(''title'', JStr ''Queries''),
            (''topics'', JArr [JObj [(''title'', JStr ''Joins''),
               (''description'', JStr ''Combine tables''),
               (''actionableStep'', JStr ''Write a join''), (''id'', JStr ''m0-t0'')]])]]),
         (''id'', JStr ''uuid-1''), (''createdAt'', JNum 1700000000000)])
   \<and> (\<exists>mods pms. member full_plan ''modules'' = Some (JArr mods) \<and> length pms = length mods
        \<and> member (JObj [(''title'', JStr ''SQL''), (''description'', JStr ''Basics''),
         (''modules'', JArr [JObj [(''title'', JStr ''Queries''),
            (''topics'', JArr [JObj [(''title'', JStr ''Joins''),
               (''description'', JStr ''Combine tables''),
               (''actionableStep'', JStr ''Write a join''), (''id'', JStr ''m0-t0'')]])]]),
         (''id'', JStr ''uuid-1''), (''createdAt'', JNum 1700000000000)]) ''modules''
          = Some (JArr pms))
   \<and> member (JObj [(''title'', JStr ''SQL''), (''description'', JStr ''Basics''),
         (''modules'', JArr [JObj [(''title'', JStr ''Queries''),
            (''topics'', JArr [JObj [(''title'', JStr ''Joins''),
               (''description'', JStr ''Combine tables''),
               (''actionableStep'', JStr ''Write a join''), (''id'', JStr ''m0-t0'')]])]]),
         (''id'', JStr ''uuid-1''), (''createdAt'', JNum 1700000000000)]) ''title''
     = member full_plan ''title''
   \<and> (\<exists>e. fst (runPlannerAgent plan_host ''uuid-1'' 1700000000000
        (returns (text_response ''oops'')) 0) = Inl e)"
proof -
  let ?c = "JObj [(''title'', JStr ''SQL''), (''description'', JStr ''Basics''),
         (''modules'', JArr [JObj [(''title'', JStr ''Queries''),
            (''topics'', JArr [JObj [(''title'', JStr ''Joins''),
               (''description'', JStr ''Combine tables''),
               (''actionableStep'', JStr ''Write a join''), (''id'', JStr ''m0-t0'')]])]]),
         (''id'', JStr ''uuid-1''), (''createdAt'', JNum 1700000000000)]"
  let ?r = "text_response full_text"
  let ?bad = "text_response ''oops''"
  have a: "Inr ?r = fst (retryWithBackoff_default (returns ?r) 0)"
    by code_simp
  have b: "text' ?r = Some full_text"
    by (simp add: text_response_def)
  have c: "JSON_parse plan_host (trim (remove_fences full_text)) = Some full_plan"
    by code_simp
  have d: "fst (runPlannerAgent plan_host ''uuid-1'' 1700000000000 (returns ?r) 0) = Inr ?c"
    by code_simp
  have e: "Inr ?bad = fst (retryWithBackoff_default (returns ?bad) 0)"
    by code_simp
  have f: "text' ?bad = Some ''oops''"
    by (simp add: text_response_def)
  have g: "JSON_parse plan_host (trim (remove_fences ''oops'')) = None"
    by code_simp
  note t1 = planner_error_iff [OF a, of plan_host "''uuid-1''" 1700000000000 ?r full_text
      full_plan ?c, THEN conjunct2, THEN conjunct1]
  note t2 = planner_error_iff [OF e, of plan_host "''uuid-1''" 1700000000000, THEN conjunct1]
  obtain mods pms where m: "member full_plan ''modules'' = Some (JArr mods)"
    "length pms = length mods"
    "\<forall>k. member ?c k =
       (if k = ''modules'' then Some (JArr pms)
        else if k = ''createdAt'' then Some (JNum 1700000000000)
        else if k = ''id'' then Some (JStr ''uuid-1'')
        else member full_plan k)"
    using t1 b c d by blast
  have "member ?c ''modules'' = Some (JArr pms)"
    using m(3) [rule_format, of "''modules''"] by simp
  moreover have "member ?c ''title'' = member full_plan ''title''"
    using m(3) [rule_format, of "''title''"] by simp
  moreover have "\<exists>e. fst (runPlannerAgent plan_host ''uuid-1'' 1700000000000
        (returns ?bad) 0) = Inl e"
    unfolding t2 using f g by simp
  ultimately show ?thesis using d m(1,2) by blast
qed


section \<open>The Orchestration Controller\<close>

lemma shape_length:
  assumes "shape ms' = shape ms"
  shows "length ms' = length ms"
proof -
  have "length (shape ms') = length (shape ms)" using assms by simp
  then show ?thesis by (simp add: shape_def)
qed

lemma shape_nth:
  assumes "shape ms' = shape ms" "m < length ms"
  shows "module.title (ms' ! m) = module.title (ms ! m)
    \<and> length (topics (ms' ! m)) = length (topics (ms ! m))"
proof -
  have l: "m < length ms'" using assms(2) shape_length [OF assms(1)] by simp
  have "map (\<lambda>md. (module.title md, length (topics md))) ms' ! m
      = map (\<lambda>md. (module.title md, length (topics md))) ms ! m"
    using assms(1) unfolding shape_def by (rule arg_cong)
  then have "(module.title (ms' ! m), length (topics (ms' ! m)))
      = (module.title (ms ! m), length (topics (ms ! m)))"
    unfolding nth_map [OF l] nth_map [OF assms(2)] .
  then show ?thesis by simp
qed


lemma in_range_shape:
  assumes "shape ms' = shape ms"
  shows "in_range ms' p = in_range ms p"
proof (cases "fst p < length ms")
  case True
  then show ?thesis
    using shape_length [OF assms] shape_nth [OF assms True] by (simp add: in_range_def)
next
  case False
  then show ?thesis using shape_length [OF assms] by (simp add: in_range_def)
qed

lemma call_args_shape:
  assumes "shape ms' = shape ms" "in_range ms (snd x)"
  shows "call_args prefs ms' x = call_args prefs ms x"
proof -
  obtain tp m t where x: "x = (tp, m, t)" by (cases x)
  then have "m < length ms" using assms(2) by (simp add: in_range_def)
  then show ?thesis using shape_nth [OF assms(1)] x by (simp add: call_args_def)
qed

lemma step_outcome_shape:
  assumes "shape ms' = shape ms" "in_range ms (snd x)"
  shows "step_outcome cur prefs ms' i x = step_outcome cur prefs ms i x"
  unfolding step_outcome_def call_args_shape [OF assms] ..

lemma content_merge_same:
  "in_range ms (m, t) \<Longrightarrow> content_at (merge_content ms m t tp c) (m, t) = Some c"
  by (simp add: in_range_def content_at_def merge_content_def)

lemma content_merge_other:
  assumes "p \<noteq> (m, t)"
  shows "content_at (merge_content ms m t tp c) p = content_at ms p"
proof (cases "m < length ms")
  case False
  then have "merge_content ms m t tp c = ms" by (simp add: merge_content_def not_less list_update_beyond)
  then show ?thesis by simp
next
  case True
  consider "fst p \<noteq> m" | "fst p = m" "snd p \<noteq> t" using assms by (cases p) auto
  then show ?thesis
  proof cases
    case 1
    then show ?thesis by (simp add: content_at_def merge_content_def)
  next
    case 2
    then show ?thesis using True by (simp add: content_at_def merge_content_def)
  qed
qed

lemma shape_merge: "shape (merge_content ms m t tp c) = shape ms"
  unfolding shape_def merge_content_def
  by (rule map_update_same) simp

lemma curator_calls_append: "curator_calls (a @ b) = curator_calls a @ curator_calls b"
  by (induction a rule: curator_calls.induct) simp_all

lemma documents_append: "documents (a @ b) = documents a @ documents b"
  by (induction a rule: documents.induct) simp_all

lemma loop_throws:
  assumes "d < length rest"
    and "\<forall>x \<in> set rest. in_range ms (snd x)"
    and "distinct (map snd rest)"
    and "\<forall>j<d. \<exists>c. step_outcome cur prefs ms (i + j) (rest ! j) = Inr c"
    and "step_outcome cur prefs ms (i + d) (rest ! d) = Inl e"
  shows "\<exists>evs final. curation_loop cur prefs plan n i rest ms = (evs, Some e, final)
      \<and> curator_calls evs = map (call_args prefs ms) (take (Suc d) rest)
      \<and> shape final = shape ms
      \<and> (d = 0 \<longrightarrow> final = ms \<and> documents evs = [])
      \<and> (0 < d \<longrightarrow> documents evs \<noteq> [] \<and> last (documents evs) = plan\<lparr>modules := final\<rparr>)
      \<and> (\<forall>j<d. map_option Inr (content_at final (snd (rest ! j)))
            = Some (step_outcome cur prefs ms (i + j) (rest ! j)))
      \<and> (\<forall>p. p \<notin> snd ` set (take d rest) \<longrightarrow> content_at final p = content_at ms p)"
  using assms
proof (induction rest arbitrary: i ms d)
  case Nil
  then show ?case by simp
next
  case (Cons x rest)
  obtain tp m t where x: "x = (tp, m, t)" by (cases x)
  have rng: "in_range ms (m, t)" using Cons.prems(2) x by simp
  then have m: "\<not> length ms \<le> m" by (simp add: in_range_def)
  define before where "before = (if i > 0 then [Timeout 6000] else [])
      @ [SetStatus (curating_status i n m tp)]"
  define ctx where "ctx = curator_context prefs (module.title (ms ! m))"
  have bc: "curator_calls before = []" and bd: "documents before = []"
    by (simp_all add: before_def)
  have args: "call_args prefs ms x = (topic.title tp, ctx)"
    by (simp add: call_args_def x ctx_def)
  have out: "step_outcome cur prefs ms i x = cur i (topic.title tp) ctx"
    by (simp add: step_outcome_def args)
  show ?case
  proof (cases d)
    case 0
    then have "cur i (topic.title tp) ctx = Inl e" using Cons.prems(5) out by simp
    then have "curation_loop cur prefs plan n i (x # rest) ms
        = (before @ [CallCurator (topic.title tp) ctx], Some e, ms)"
      using m by (simp add: x before_def ctx_def Let_def)
    then show ?thesis using 0 bc bd args by (simp add: curator_calls_append documents_append)
  next
    case (Suc d')
    obtain c where c: "cur i (topic.title tp) ctx = Inr c"
      using Cons.prems(4) [rule_format, of 0] Suc out by auto
    define ms' where "ms' = merge_content ms m t tp c"
    have sh: "shape ms' = shape ms" by (simp add: ms'_def shape_merge)
    have p1: "d' < length rest" using Cons.prems(1) Suc by simp
    have p2: "\<forall>y \<in> set rest. in_range ms' (snd y)"
      using Cons.prems(2) in_range_shape [OF sh] by simp
    have p3: "distinct (map snd rest)" using Cons.prems(3) by simp
    have same: "step_outcome cur prefs ms' k y = step_outcome cur prefs ms k y"
      if "y \<in> set rest" for k y
      using step_outcome_shape [OF sh] Cons.prems(2) that by simp
    have p4: "\<forall>j<d'. \<exists>c. step_outcome cur prefs ms' (Suc i + j) (rest ! j) = Inr c"
    proof (intro allI impI)
      fix j assume j: "j < d'"
      then have "rest ! j \<in> set rest" using p1 by simp
      moreover have "\<exists>c. step_outcome cur prefs ms (i + Suc j) ((x # rest) ! Suc j) = Inr c"
        using Cons.prems(4) j Suc by blast
      ultimately show "\<exists>c. step_outcome cur prefs ms' (Suc i + j) (rest ! j) = Inr c"
        using same by simp
    qed
    have p5: "step_outcome cur prefs ms' (Suc i + d') (rest ! d') = Inl e"
    proof -
      have "rest ! d' \<in> set rest" using p1 by simp
      then show ?thesis using same Cons.prems(5) Suc by simp
    qed
    obtain evs final where ih:
      "curation_loop cur prefs plan n (Suc i) rest ms' = (evs, Some e, final)"
      "curator_calls evs = map (call_args prefs ms') (take (Suc d') rest)"
      "shape final = shape ms'"
      "d' = 0 \<longrightarrow> final = ms' \<and> documents evs = []"
      "0 < d' \<longrightarrow> documents evs \<noteq> [] \<and> last (documents evs) = plan\<lparr>modules := final\<rparr>"
      "\<forall>j<d'. map_option Inr (content_at final (snd (rest ! j)))
            = Some (step_outcome cur prefs ms' (Suc i + j) (rest ! j))"
      "\<forall>p. p \<notin> snd ` set (take d' rest) \<longrightarrow> content_at final p = content_at ms' p"
      using Cons.IH [OF p1 p2 p3 p4 p5] by blast
    let ?evs = "before @ [CallCurator (topic.title tp) ctx, SetCurriculum (plan\<lparr>modules := ms'\<rparr>)] @ evs"
    have loop: "curation_loop cur prefs plan n i (x # rest) ms = (?evs, Some e, final)"
      using m c ih(1) by (simp add: x before_def ctx_def ms'_def Let_def)
    have calls: "curator_calls ?evs = map (call_args prefs ms) (take (Suc d) (x # rest))"
    proof -
      have "map (call_args prefs ms') (take (Suc d') rest) = map (call_args prefs ms) (take (Suc d') rest)"
      proof (rule map_cong [OF refl])
        fix y assume "y \<in> set (take (Suc d') rest)"
        then have "y \<in> set rest" by (rule in_set_takeD)
        then have "in_range ms (snd y)" using Cons.prems(2) by simp
        then show "call_args prefs ms' y = call_args prefs ms y" by (rule call_args_shape [OF sh])
      qed
      then show ?thesis using ih(2) bc args Suc by (simp add: curator_calls_append)
    qed
    have docs: "documents ?evs = plan\<lparr>modules := ms'\<rparr> # documents evs"
      using bd by (simp add: documents_append)
    have lastdoc: "last (documents ?evs) = plan\<lparr>modules := final\<rparr>"
    proof (cases "d' = 0")
      case True
      then show ?thesis using ih(4) docs by simp
    next
      case False
      then show ?thesis using ih(5) docs by simp
    qed
    have notin: "(m, t) \<notin> snd ` set rest" using Cons.prems(3) x by simp
    have first: "content_at final (m, t) = Some c"
    proof -
      have "(m, t) \<notin> snd ` set (take d' rest)" using notin set_take_subset [of d' rest] by blast
      then have "content_at final (m, t) = content_at ms' (m, t)" using ih(7) by blast
      then show ?thesis using content_merge_same [OF rng] by (simp add: ms'_def)
    qed
    have contents: "\<forall>j<d. map_option Inr (content_at final (snd ((x # rest) ! j)))
            = Some (step_outcome cur prefs ms (i + j) ((x # rest) ! j))"
    proof (intro allI impI)
      fix j assume j: "j < d"
      show "map_option Inr (content_at final (snd ((x # rest) ! j)))
            = Some (step_outcome cur prefs ms (i + j) ((x # rest) ! j))"
      proof (cases j)
        case 0
        then show ?thesis using first out c x by simp
      next
        case (Suc j')
        then have j': "j' < d'" using j \<open>d = Suc d'\<close> by simp
        then have "rest ! j' \<in> set rest" using p1 by simp
        then have e: "step_outcome cur prefs ms' (Suc i + j') (rest ! j')
            = step_outcome cur prefs ms (Suc i + j') (rest ! j')" by (rule same)
        have "map_option Inr (content_at final (snd (rest ! j')))
            = Some (step_outcome cur prefs ms' (Suc i + j') (rest ! j'))"
          using ih(6) j' by blast
        then have "map_option Inr (content_at final (snd (rest ! j')))
            = Some (step_outcome cur prefs ms (Suc i + j') (rest ! j'))"
          unfolding e .
        then show ?thesis unfolding Suc by simp
      qed
    qed
    have frame: "\<forall>p. p \<notin> snd ` set (take d (x # rest)) \<longrightarrow> content_at final p = content_at ms p"
    proof (intro allI impI)
      fix p assume "p \<notin> snd ` set (take d (x # rest))"
      then have a: "p \<noteq> (m, t)" and b: "p \<notin> snd ` set (take d' rest)"
        using Suc x by auto
      have "content_at final p = content_at ms' p" using ih(7) b by blast
      then show "content_at final p = content_at ms p"
        using content_merge_other [OF a] by (simp add: ms'_def)
    qed
    have "shape final = shape ms" using ih(3) sh by simp
    then show ?thesis using loop calls lastdoc docs contents frame Suc by auto
  qed
qed

lemma topics_from_Nil: "topics_from k [] = []"
  by (simp add: topics_from_def)

lemma topics_from_Cons:
  "topics_from k (md # mds)
     = map (\<lambda>(tIdx, tp). (tp, k, tIdx)) (indexed (topics md)) @ topics_from (Suc k) mds"
proof -
  have "[k..<Suc (k + length mds)] = k # [Suc k..<Suc (k + length mds)]"
    by (rule upt_conv_Cons) simp
  then show ?thesis by (simp add: topics_from_def)
qed

lemma allTopics_from: "allTopics plan = topics_from 0 (modules plan)"
  by (simp add: allTopics_def topics_from_def indexed_def)

lemma indexed_set: "(i, x) \<in> set (indexed xs) \<Longrightarrow> i < length xs \<and> x = xs ! i"
  unfolding indexed_def by (auto simp: set_zip)

lemma map_fst_indexed: "map fst (indexed xs) = [0..<length xs]"
  by (simp add: indexed_def)

lemma topics_from_range:
  "x \<in> set (topics_from k mds) \<Longrightarrow>
     k \<le> fst (snd x) \<and> fst (snd x) < k + length mds
     \<and> snd (snd x) < length (topics (mds ! (fst (snd x) - k)))"
proof (induction mds arbitrary: k)
  case Nil
  then show ?case by (simp add: topics_from_Nil)
next
  case (Cons md mds)
  have "x \<in> set (map (\<lambda>(tIdx, tp). (tp, k, tIdx)) (indexed (topics md)))
      \<union> set (topics_from (Suc k) mds)"
    using Cons.prems unfolding topics_from_Cons set_append .
  then consider
    "x \<in> set (map (\<lambda>(tIdx, tp). (tp, k, tIdx)) (indexed (topics md)))"
    | "x \<in> set (topics_from (Suc k) mds)"
    by blast
  then show ?case
  proof cases
    case 1
    then obtain tIdx tp where "x = (tp, k, tIdx)" "(tIdx, tp) \<in> set (indexed (topics md))"
      by auto
    then show ?thesis using indexed_set by fastforce
  next
    case 2
    then have ih: "Suc k \<le> fst (snd x) \<and> fst (snd x) < Suc k + length mds
       \<and> snd (snd x) < length (topics (mds ! (fst (snd x) - Suc k)))"
      by (rule Cons.IH)
    then have "(md # mds) ! (fst (snd x) - k) = mds ! (fst (snd x) - Suc k)"
      by (metis Suc_diff_le diff_Suc_Suc nth_Cons_Suc)
    then show ?thesis using ih by simp
  qed
qed

lemma topics_from_distinct: "distinct (map snd (topics_from k mds))"
proof (induction mds arbitrary: k)
  case Nil
  then show ?case by (simp add: topics_from_Nil)
next
  case (Cons md mds)
  let ?a = "map (\<lambda>(tIdx, tp). (tp, k, tIdx)) (indexed (topics md))"
  have "map snd ?a = map (\<lambda>p. (k, fst p)) (indexed (topics md))"
    by (simp add: case_prod_beta)
  also have "\<dots> = map (Pair k) (map fst (indexed (topics md)))" by (simp add: comp_def)
  finally have a: "map snd ?a = map (Pair k) [0..<length (topics md)]"
    by (simp add: map_fst_indexed)
  have da: "distinct (map snd ?a)" unfolding a by (simp add: distinct_map inj_on_def)
  have disj: "set (map snd ?a) \<inter> set (map snd (topics_from (Suc k) mds)) = {}"
  proof (rule ccontr)
    assume "set (map snd ?a) \<inter> set (map snd (topics_from (Suc k) mds)) \<noteq> {}"
    then obtain p where p: "p \<in> set (map snd ?a)" "p \<in> set (map snd (topics_from (Suc k) mds))"
      by blast
    from p(1) have "fst p = k" unfolding a by auto
    moreover from p(2) obtain x where "x \<in> set (topics_from (Suc k) mds)" "p = snd x" by auto
    then have "Suc k \<le> fst p" using topics_from_range by blast
    ultimately show False by simp
  qed
  show ?case using da disj Cons.IH [of "Suc k"] by (simp add: topics_from_Cons)
qed

lemma allTopics_in_range: "x \<in> set (allTopics plan) \<Longrightarrow> in_range (modules plan) (snd x)"
  using topics_from_range [of x 0 "modules plan"] by (simp add: allTopics_from in_range_def)

lemma allTopics_distinct: "distinct (map snd (allTopics plan))"
  by (simp add: allTopics_from topics_from_distinct)

lemma call_outcome_step:
  "call_outcome cur prefs plan j = step_outcome cur prefs (modules plan) j (allTopics plan ! j)"
  by (simp add: call_outcome_def step_outcome_def call_args_def split: prod.splits)

text \<open>
  C9. When the curator call for the \<open>k\<close>-th entry of \<open>allTopics\<close> throws, the calls
  before it having returned: the curator is called for the entries \<open>0\<close> to \<open>k\<close> and for
  no other, the last state published is the error status, and in the last curriculum
  document published every entry before the \<open>k\<close>-th carries the content that the
  curator returned for it.
\<close>

theorem curation_error_keeps_merged_content:
  assumes "k < length (allTopics plan)"
    and "\<forall>j<k. \<exists>c. call_outcome cur prefs plan j = Inr c"
    and "call_outcome cur prefs plan k = Inl e"
  shows "curator_calls (startGeneration (Inr plan) cur prefs)
        = map (call_args prefs (modules plan)) (take (Suc k) (allTopics plan))
    \<and> last (startGeneration (Inr plan) cur prefs) = SetStatus error_status
    \<and> stage error_status = error
    \<and> (\<forall>j<k. map_option Inr (content_at
          (modules (last (documents (startGeneration (Inr plan) cur prefs))))
          (snd (allTopics plan ! j))) = Some (call_outcome cur prefs plan j))"
proof -
  let ?all = "allTopics plan"
  have r: "\<forall>x \<in> set ?all. in_range (modules plan) (snd x)"
    using allTopics_in_range by blast
  have o: "\<forall>j<k. \<exists>c. step_outcome cur prefs (modules plan) (0 + j) (?all ! j) = Inr c"
    using assms(2) by (simp add: call_outcome_step)
  have f: "step_outcome cur prefs (modules plan) (0 + k) (?all ! k) = Inl e"
    using assms(3) by (simp add: call_outcome_step)
  obtain evs final where l:
    "curation_loop cur prefs plan (length ?all) 0 ?all (modules plan) = (evs, Some e, final)"
    "curator_calls evs = map (call_args prefs (modules plan)) (take (Suc k) ?all)"
    "k = 0 \<longrightarrow> final = modules plan \<and> documents evs = []"
    "0 < k \<longrightarrow> documents evs \<noteq> [] \<and> last (documents evs) = plan\<lparr>modules := final\<rparr>"
    "\<forall>j<k. map_option Inr (content_at final (snd (?all ! j)))
        = Some (step_outcome cur prefs (modules plan) (0 + j) (?all ! j))"
    using loop_throws [OF assms(1) r allTopics_distinct o f, of plan "length ?all"] by blast
  let ?tr = "startGeneration (Inr plan) cur prefs"
  have tr: "?tr = [SetStatus \<lparr>stage = planning,
        message = ''Planner Agent is designing the syllabus...'', progress = Percent 0,
        currentTask = None\<rparr>, CallPlanner prefs, SetCurriculum plan,
      SetStatus \<lparr>stage = curating, message = ''Curator Agent is finding resources...'',
        progress = Percent 0, currentTask = None\<rparr>] @ evs @ [SetStatus error_status]"
    using l(1) by (simp add: startGeneration_def)
  have calls: "curator_calls ?tr = map (call_args prefs (modules plan)) (take (Suc k) ?all)"
    unfolding tr using l(2) by (simp add: curator_calls_append)
  have lst: "last ?tr = SetStatus error_status" unfolding tr by simp
  have docs: "documents ?tr = plan # documents evs"
    unfolding tr by (simp add: documents_append)
  have contents: "\<forall>j<k. map_option Inr (content_at (modules (last (documents ?tr)))
      (snd (?all ! j))) = Some (call_outcome cur prefs plan j)"
  proof (intro allI impI)
    fix j assume j: "j < k"
    then have "last (documents ?tr) = plan\<lparr>modules := final\<rparr>"
      using l(4) docs by simp
    then have "modules (last (documents ?tr)) = final" by simp
    then show "map_option Inr (content_at (modules (last (documents ?tr)))
      (snd (?all ! j))) = Some (call_outcome cur prefs plan j)"
      using l(5) j by (simp add: call_outcome_step)
  qed
  show ?thesis using calls lst contents by (simp add: error_status_def)
qed

theorem curation_error_keeps_merged_content_witness:
  "2 < length (allTopics sample_plan)
   \<and> call_outcome (throws_at 2) sample_prefs sample_plan 2 = Inl (Error ''boom'')
   \<and> curator_calls (startGeneration (Inr sample_plan) (throws_at 2) sample_prefs)
       = [(''Select'', ''Course Goal: Learn SQL basics. Module: Queries''),
          (''Joins'', ''Course Goal: Learn SQL basics. Module: Queries''),
          (''Keys'', ''Course Goal: Learn SQL basics. Module: Schema'')]
   \<and> last (startGeneration (Inr sample_plan) (throws_at 2) sample_prefs) = SetStatus error_status
   \<and> content_at (modules (last (documents
         (startGeneration (Inr sample_plan) (throws_at 2) sample_prefs)))) (0, 0)
       = Some \<lparr>summary = ''Here are 0 curated resources for Select.'', resources = []\<rparr>
   \<and> content_at (modules (last (documents
         (startGeneration (Inr sample_plan) (throws_at 2) sample_prefs)))) (0, 1)
       = Some \<lparr>summary = ''Here are 0 curated resources for Joins.'', resources = []\<rparr>"
proof -
  have a: "2 < length (allTopics sample_plan)" by code_simp
  have b: "\<forall>j<2. \<exists>c. call_outcome (throws_at 2) sample_prefs sample_plan j = Inr c"
    by (simp add: call_outcome_def throws_at_def split: prod.splits)
  have c: "call_outcome (throws_at 2) sample_prefs sample_plan 2 = Inl (Error ''boom'')"
    by code_simp
  have d: "map (call_args sample_prefs (modules sample_plan)) (take (Suc 2) (allTopics sample_plan))
       = [(''Select'', ''Course Goal: Learn SQL basics. Module: Queries''),
          (''Joins'', ''Course Goal: Learn SQL basics. Module: Queries''),
          (''Keys'', ''Course Goal: Learn SQL basics. Module: Schema'')]"
    by code_simp
  have p: "snd (allTopics sample_plan ! 0) = (0, 0)" "snd (allTopics sample_plan ! 1) = (0, 1)"
    by code_simp+
  have q: "call_outcome (throws_at 2) sample_prefs sample_plan 0
        = Inr \<lparr>summary = ''Here are 0 curated resources for Select.'', resources = []\<rparr>"
      "call_outcome (throws_at 2) sample_prefs sample_plan 1
        = Inr \<lparr>summary = ''Here are 0 curated resources for Joins.'', resources = []\<rparr>"
    by code_simp+
  note th = curation_error_keeps_merged_content [OF a b c]
  have t0: "map_option Inr (content_at (modules (last (documents
         (startGeneration (Inr sample_plan) (throws_at 2) sample_prefs)))) (0, 0))
       = Some (Inr \<lparr>summary = ''Here are 0 curated resources for Select.'', resources = []\<rparr>)"
    using th [THEN conjunct2, THEN conjunct2, THEN conjunct2, rule_format, of 0] p(1) q(1)
    by simp
  have t1: "map_option Inr (content_at (modules (last (documents
         (startGeneration (Inr sample_plan) (throws_at 2) sample_prefs)))) (0, 1))
       = Some (Inr \<lparr>summary = ''Here are 0 curated resources for Joins.'', resources = []\<rparr>)"
    using th [THEN conjunct2, THEN conjunct2, THEN conjunct2, rule_format, of 1] p(2) q(2)
    by simp
  show ?thesis using a c d th t0 t1 by auto
qed

end
